theory Spec2Isabelle
  imports Complex_Main "HOL-Library.Log_Nat"
begin

section \<open>JavaScript primitives used by the dashboard\<close>

text \<open>
  A TypeScript \<open>number\<close> is an IEEE 754 double. It is modelled as the real number it
  denotes, and an arithmetic operation of the source (\<open>+\<close>, \<open>-\<close>, \<open>*\<close>, \<open>/\<close>) as the exact
  operation on the reals followed by \<open>fl\<close>, the rounding to the nearest double, a tie to
  the double with the even significand. Comparisons, \<open>Math.floor\<close>, \<open>Math.round\<close>,
  \<open>Math.max\<close> and \<open>%\<close> are exact. The numbers of the dashboard stay below 256: the
  infinities, NaN and the sign of zero play no part and are not modelled. A result of
  \<open>Math.random()\<close> is a parameter \<open>r\<close>, a double with \<open>0 \<le> r < 1\<close>; a reading of \<open>Date.now()\<close>
  or \<open>new Date()\<close> is a parameter of type \<open>nat\<close> (milliseconds).
\<close>

text \<open>For \<open>x > 0\<close>, the integer \<open>e\<close> with \<open>2^e \<le> x < 2^(e + 1)\<close>.\<close>

definition exponent :: "real \<Rightarrow> int" where
  "exponent x = (if 1 \<le> x then bitlen \<lfloor>x\<rfloor> - 1 else - bitlen (\<lceil>1 / x\<rceil> - 1))"

text \<open>
  The distance between two neighbouring doubles around \<open>x\<close>: a double has 52 fraction
  bits below its leading bit; below \<open>2^-1022\<close> the doubles are subnormal, \<open>2^-1074\<close> apart.
\<close>

definition ulp :: "real \<Rightarrow> real" where
  "ulp x = 2 powi (max (exponent \<bar>x\<bar>) (- 1022) - 52)"

text \<open>Rounding to the nearest integer, a tie to the even one.\<close>

definition roundTiesToEven :: "real \<Rightarrow> int" where
  "roundTiesToEven q =
     (let n = \<lfloor>q\<rfloor> in
        if q - of_int n < 1 / 2 then n
        else if 1 / 2 < q - of_int n then n + 1
        else if even n then n else n + 1)"

text \<open>The double nearest to the real \<open>x\<close>: the result of an operation whose exact value is \<open>x\<close>.\<close>

definition fl :: "real \<Rightarrow> real" where
  "fl x = (if x = 0 then 0 else of_int (roundTiesToEven (x / ulp x)) * ulp x)"

definition is_double :: "real \<Rightarrow> bool" where
  "is_double x \<longleftrightarrow> fl x = x"

definition Math_floor :: "real \<Rightarrow> real" where
  "Math_floor x = of_int \<lfloor>x\<rfloor>"

text \<open>\<open>Math.round\<close> rounds to the nearest integer, a tie towards plus infinity.\<close>

definition Math_round :: "real \<Rightarrow> real" where
  "Math_round x = of_int \<lfloor>x + 1 / 2\<rfloor>"

definition Math_max :: "real \<Rightarrow> real \<Rightarrow> real" where
  "Math_max x y = (if x < y then y else x)"

text \<open>The remainder operator \<open>%\<close>: the quotient is truncated towards zero.\<close>

definition js_rem :: "real \<Rightarrow> real \<Rightarrow> real" where
  "js_rem x y = x - y * of_int (if 0 \<le> x / y then \<lfloor>x / y\<rfloor> else \<lceil>x / y\<rceil>)"

definition digit :: "nat \<Rightarrow> char" where
  "digit n = ''0123456789'' ! n"

text \<open>\<open>toString\<close> of a non-negative integer: its decimal digits.\<close>

fun toString :: "nat \<Rightarrow> string" where
  "toString n = (if n < 10 then [digit n] else toString (n div 10) @ [digit (n mod 10)])"

declare toString.simps [simp del]

text \<open>
  String conversion of a \<open>number\<close>, as string concatenation and template literals do
  it. The source applies it to results of \<open>Math.floor\<close> only, integers far below
  \<open>10^21\<close>, which JavaScript prints as plain decimal digits.
\<close>

definition Number_toString :: "real \<Rightarrow> string" where
  "Number_toString x =
     (if x < 0 then ''-'' @ toString (nat \<lfloor>- x\<rfloor>) else toString (nat \<lfloor>x\<rfloor>))"

fun startsWith :: "string \<Rightarrow> string \<Rightarrow> bool" where
  "startsWith s [] = True"
| "startsWith [] (p # ps) = False"
| "startsWith (c # cs) (p # ps) = (c = p \<and> startsWith cs ps)"

text \<open>
  \<open>s.replace(pat, rep)\<close> with a string pattern: the first occurrence of \<open>pat\<close>, wherever
  it is in \<open>s\<close>, is replaced; \<open>s\<close> is returned as it is when there is none.
\<close>

fun replace :: "string \<Rightarrow> string \<Rightarrow> string \<Rightarrow> string" where
  "replace pat rep [] = (if pat = [] then rep else [])"
| "replace pat rep (c # cs) =
     (if startsWith (c # cs) pat then rep @ drop (length pat) (c # cs)
      else c # replace pat rep cs)"

text \<open>\<open>s.split(sep)\<close> for a one-character separator; the empty string gives \<open>['']\<close>.\<close>

fun split :: "char \<Rightarrow> string \<Rightarrow> string list" where
  "split sep [] = [[]]"
| "split sep (c # cs) =
     (if c = sep then [] # split sep cs
      else (case split sep cs of [] \<Rightarrow> [[c]] | x # xs \<Rightarrow> (c # x) # xs))"

section \<open>Data model\<close>

text \<open>
  The three interfaces of the source. Their fields share names (\<open>id\<close>, \<open>status\<close>,
  \<open>qualityScore\<close>, ...), so each record prefixes its own: \<open>repo_\<close>, \<open>review_\<close>, \<open>pipe_\<close>.
\<close>

datatype repo_status = Reviewing | Approved | Rejected | Deploying | Deployed

datatype review_status = Pending | ReviewCompleted | ReviewFailed

datatype stage = Build | Test | Security | Deploy | Completed | Failed

datatype environment = Staging | Production

record Repository =
  repo_id :: string
  repo_name :: string
  repo_owner :: string
  repo_branch :: string
  repo_lastCommit :: string
  repo_qualityScore :: real
  repo_status :: repo_status
  repo_pullRequests :: real
  repo_url :: string
  repo_createdAt :: nat
  repo_isAnalyzing :: "bool option"

record ReviewData =
  review_id :: string
  review_repository :: string
  review_pullRequest :: string
  review_author :: string
  review_qualityScore :: real
  review_suggestions :: real
  review_status :: review_status
  review_timestamp :: string
  review_repositoryId :: string

record Pipeline =
  pipe_id :: string
  pipe_repository :: string
  pipe_repositoryId :: string
  pipe_branch :: string
  pipe_stage :: stage
  pipe_progress :: real
  pipe_startTime :: string
  pipe_duration :: string
  pipe_qualityGate :: bool
  pipe_environment :: environment

text \<open>
  A pending \<open>setTimeout\<close> with what its closure captured: the analysis started by
  \<open>addRepository\<close> (\<open>newRepo.id\<close> and \<open>name\<close>), the manual review (\<open>repoId\<close>), the refresh.
\<close>

datatype timeout = AnalysisTimeout string string | ReviewTimeout string | RefreshTimeout

text \<open>
  A live \<open>setInterval\<close> of \<open>triggerDeployment\<close> with what its closure holds:
  \<open>newPipeline.id\<close>, \<open>repo.id\<close> and the local variable \<open>progress\<close>. The other local,
  \<open>currentStageIndex\<close>, is assigned by every tick before it is read.
\<close>

record interval =
  tick_pipeline :: string
  tick_repo :: string
  tick_progress :: real

text \<open>
  The state of the dashboard: the lists held by \<open>Home\<close> (repositories, reviews) and by
  \<open>DeploymentPipeline\<close> (pipelines), and the timers that are pending. Flags that only
  drive the display (\<open>activeTab\<close>, \<open>isRefreshing\<close>, \<open>isConnecting\<close>, ...) are left out.
\<close>

record state =
  repositories :: "Repository list"
  reviews :: "ReviewData list"
  pipelines :: "Pipeline list"
  timeouts :: "timeout list"
  intervals :: "interval list"

datatype error = InvalidFormat | AlreadyConnected | QualityGate

definition remove_nth :: "nat \<Rightarrow> 'a list \<Rightarrow> 'a list" where
  "remove_nth k xs = take k xs @ drop (Suc k) xs"

section \<open>The seed data\<close>

definition initialRepositories :: "nat \<Rightarrow> Repository list" where
  "initialRepositories t =
     [\<lparr>repo_id = ''1'', repo_name = ''react-dashboard'', repo_owner = ''mycompany'',
       repo_branch = ''main'', repo_lastCommit = ''2h ago'', repo_qualityScore = 92,
       repo_status = Approved, repo_pullRequests = 3,
       repo_url = ''https://github.com/mycompany/react-dashboard'', repo_createdAt = t,
       repo_isAnalyzing = None\<rparr>,
      \<lparr>repo_id = ''2'', repo_name = ''api-service'', repo_owner = ''mycompany'',
       repo_branch = ''feature/auth'', repo_lastCommit = ''15m ago'', repo_qualityScore = 87,
       repo_status = Deploying, repo_pullRequests = 1,
       repo_url = ''https://github.com/mycompany/api-service'', repo_createdAt = t,
       repo_isAnalyzing = None\<rparr>,
      \<lparr>repo_id = ''3'', repo_name = ''mobile-app'', repo_owner = ''mycompany'',
       repo_branch = ''develop'', repo_lastCommit = ''1h ago'', repo_qualityScore = 74,
       repo_status = Reviewing, repo_pullRequests = 2,
       repo_url = ''https://github.com/mycompany/mobile-app'', repo_createdAt = t,
       repo_isAnalyzing = None\<rparr>]"

definition initialReviews :: "ReviewData list" where
  "initialReviews =
     [\<lparr>review_id = ''1'', review_repository = ''react-dashboard'', review_pullRequest = ''#156'',
       review_author = ''john.doe'', review_qualityScore = 92, review_suggestions = 3,
       review_status = ReviewCompleted, review_timestamp = ''2h ago'',
       review_repositoryId = ''1''\<rparr>,
      \<lparr>review_id = ''2'', review_repository = ''api-service'', review_pullRequest = ''#89'',
       review_author = ''jane.smith'', review_qualityScore = 87, review_suggestions = 5,
       review_status = ReviewCompleted, review_timestamp = ''15m ago'',
       review_repositoryId = ''2''\<rparr>,
      \<lparr>review_id = ''3'', review_repository = ''mobile-app'', review_pullRequest = ''#23'',
       review_author = ''mike.wilson'', review_qualityScore = 74, review_suggestions = 8,
       review_status = Pending, review_timestamp = ''5m ago'',
       review_repositoryId = ''3''\<rparr>]"

definition initialPipelines :: "Pipeline list" where
  "initialPipelines =
     [\<lparr>pipe_id = ''1'', pipe_repository = ''react-dashboard'', pipe_repositoryId = ''1'',
       pipe_branch = ''main'', pipe_stage = Completed, pipe_progress = 100,
       pipe_startTime = ''2h ago'', pipe_duration = ''4m 32s'', pipe_qualityGate = True,
       pipe_environment = Production\<rparr>,
      \<lparr>pipe_id = ''2'', pipe_repository = ''api-service'', pipe_repositoryId = ''2'',
       pipe_branch = ''feature/auth'', pipe_stage = Deploy, pipe_progress = 75,
       pipe_startTime = ''15m ago'', pipe_duration = ''3m 45s'', pipe_qualityGate = True,
       pipe_environment = Staging\<rparr>,
      \<lparr>pipe_id = ''3'', pipe_repository = ''mobile-app'', pipe_repositoryId = ''3'',
       pipe_branch = ''develop'', pipe_stage = Failed, pipe_progress = 45,
       pipe_startTime = ''1h ago'', pipe_duration = ''2m 15s'', pipe_qualityGate = False,
       pipe_environment = Staging\<rparr>]"

text \<open>The state at mount time; \<open>t\<close> is the clock reading of the seeds' \<open>new Date()\<close>.\<close>

definition initial :: "nat \<Rightarrow> state" where
  "initial t =
     \<lparr>repositories = initialRepositories t, reviews = initialReviews,
      pipelines = initialPipelines, timeouts = [], intervals = []\<rparr>"

section \<open>Home: the repository registry and the review list\<close>

definition updateRepositoryStatus :: "string \<Rightarrow> repo_status \<Rightarrow> state \<Rightarrow> state" where
  "updateRepositoryStatus repoId status s =
     s\<lparr>repositories :=
         map (\<lambda>repo. if repo_id repo = repoId then repo\<lparr>repo_status := status\<rparr> else repo)
           (repositories s)\<rparr>"

definition urlParts :: "string \<Rightarrow> string list" where
  "urlParts repoUrl = split CHR ''/'' (replace ''https://github.com/'' [] repoUrl)"

definition newRepo :: "string \<Rightarrow> string \<Rightarrow> string \<Rightarrow> nat \<Rightarrow> nat \<Rightarrow> Repository" where
  "newRepo owner name repoUrl now created =
     \<lparr>repo_id = toString now, repo_name = name, repo_owner = owner, repo_branch = ''main'',
      repo_lastCommit = ''just now'', repo_qualityScore = 0, repo_status = Reviewing,
      repo_pullRequests = 0, repo_url = repoUrl, repo_createdAt = created,
      repo_isAnalyzing = Some True\<rparr>"

text \<open>
  The body of the \<open>try\<close> block of \<open>addRepository\<close>: both \<open>throw\<close>s come before any state
  update. \<open>now\<close> is the reading of \<open>Date.now()\<close>, \<open>created\<close> that of \<open>new Date()\<close>.
\<close>

definition addRepository_try :: "string \<Rightarrow> nat \<Rightarrow> nat \<Rightarrow> state \<Rightarrow> error + state" where
  "addRepository_try repoUrl now created s =
     (if length (urlParts repoUrl) \<noteq> 2 then Inl InvalidFormat
      else
        let owner = urlParts repoUrl ! 0; name = urlParts repoUrl ! 1 in
        if \<exists>repo \<in> set (repositories s). repo_owner repo = owner \<and> repo_name repo = name
        then Inl AlreadyConnected
        else Inr (s\<lparr>repositories := repositories s @ [newRepo owner name repoUrl now created],
                   timeouts := timeouts s @ [AnalysisTimeout (toString now) name]\<rparr>))"

text \<open>The \<open>catch\<close> logs the error and returns \<open>false\<close>.\<close>

definition addRepository :: "string \<Rightarrow> nat \<Rightarrow> nat \<Rightarrow> state \<Rightarrow> bool \<times> state" where
  "addRepository repoUrl now created s =
     (case addRepository_try repoUrl now created s of
        Inl e \<Rightarrow> (False, s)
      | Inr s' \<Rightarrow> (True, s'))"

definition analysisScore :: "real \<Rightarrow> real" where
  "analysisScore random = fl (Math_floor (fl (random * 40)) + 60)"

definition analysisStatus :: "real \<Rightarrow> repo_status" where
  "analysisStatus score =
     (if score \<ge> 85 then Approved else if score \<ge> 70 then Reviewing else Rejected)"

definition newReview :: "string \<Rightarrow> string \<Rightarrow> real \<Rightarrow> real \<Rightarrow> real \<Rightarrow> nat \<Rightarrow> ReviewData" where
  "newReview newRepoId name score label sugg now =
     \<lparr>review_id = toString now, review_repository = name,
      review_pullRequest = ''#'' @ Number_toString (Math_floor (fl (fl (label * 200) + 1))),
      review_author = ''ai-analysis'', review_qualityScore = score,
      review_suggestions = fl (Math_floor (fl (sugg * 10)) + 1),
      review_status = ReviewCompleted,
      review_timestamp = ''just now'', review_repositoryId = newRepoId\<rparr>"

text \<open>
  The callback of the analysis timeout. Its draws of \<open>Math.random()\<close>: \<open>r\<close> for the score,
  \<open>label\<close> for the pull-request label, \<open>sugg\<close> for the suggestion count, and \<open>prs k\<close> for
  the pull-request count of the repository at position \<open>k\<close> (the draw is inside the
  \<open>map\<close>, made for every repository whose id matches).
\<close>

definition analysisCallback ::
  "string \<Rightarrow> string \<Rightarrow> real \<Rightarrow> (nat \<Rightarrow> real) \<Rightarrow> real \<Rightarrow> real \<Rightarrow> nat \<Rightarrow> state \<Rightarrow> state" where
  "analysisCallback newRepoId name r prs label sugg now s =
     s\<lparr>repositories :=
         map (\<lambda>(k, repo).
               if repo_id repo = newRepoId
               then repo\<lparr>repo_qualityScore := analysisScore r,
                         repo_status := analysisStatus (analysisScore r),
                         repo_pullRequests := fl (Math_floor (fl (prs k * 5)) + 1),
                         repo_isAnalyzing := Some False\<rparr>
               else repo)
           (enumerate 0 (repositories s)),
       reviews := newReview newRepoId name (analysisScore r) label sugg now # reviews s\<rparr>"

definition removeRepository :: "string \<Rightarrow> state \<Rightarrow> state" where
  "removeRepository repoId s =
     s\<lparr>repositories := filter (\<lambda>repo. repo_id repo \<noteq> repoId) (repositories s),
       reviews := filter (\<lambda>review. review_repositoryId review \<noteq> repoId) (reviews s)\<rparr>"

text \<open>\<open>refreshRepositories\<close> only starts a timeout; its callback draws twice per repository.\<close>

definition refreshRepositories :: "state \<Rightarrow> state" where
  "refreshRepositories s = s\<lparr>timeouts := timeouts s @ [RefreshTimeout]\<rparr>"

definition refreshCallback :: "(nat \<Rightarrow> real) \<Rightarrow> (nat \<Rightarrow> real) \<Rightarrow> state \<Rightarrow> state" where
  "refreshCallback a b s =
     s\<lparr>repositories :=
         map (\<lambda>(k, repo).
               repo\<lparr>repo_lastCommit := (if a k > 1 / 2 then ''just now'' else repo_lastCommit repo),
                    repo_qualityScore :=
                      Math_max 50
                        (fl (fl (repo_qualityScore repo + Math_floor (fl (b k * 10))) - 5))\<rparr>)
           (enumerate 0 (repositories s))\<rparr>"

section \<open>RepositoryManager: the manual review\<close>

definition newScore :: "real \<Rightarrow> real" where
  "newScore random = fl (Math_floor (fl (random * 40)) + 60)"

definition newStatus :: "real \<Rightarrow> repo_status" where
  "newStatus score =
     (if score \<ge> 85 then Approved else if score \<ge> 70 then Reviewing else Rejected)"

definition triggerManualReview :: "string \<Rightarrow> state \<Rightarrow> state" where
  "triggerManualReview repoId s =
     (updateRepositoryStatus repoId Reviewing s)\<lparr>timeouts := timeouts s @ [ReviewTimeout repoId]\<rparr>"

definition manualReviewCallback :: "string \<Rightarrow> real \<Rightarrow> state \<Rightarrow> state" where
  "manualReviewCallback repoId r s = updateRepositoryStatus repoId (newStatus (newScore r)) s"

section \<open>DeploymentPipeline\<close>

definition stages :: "stage list" where
  "stages = [Build, Test, Security, Deploy, Completed]"

definition newPipeline :: "Repository \<Rightarrow> environment \<Rightarrow> nat \<Rightarrow> Pipeline" where
  "newPipeline repo env now =
     \<lparr>pipe_id = toString now, pipe_repository = repo_name repo,
      pipe_repositoryId = repo_id repo, pipe_branch = repo_branch repo, pipe_stage = Build,
      pipe_progress = 0, pipe_startTime = ''just now'', pipe_duration = ''0s'',
      pipe_qualityGate = True, pipe_environment = env\<rparr>"

text \<open>
  \<open>triggerDeployment\<close> returns the alert it raised, if any, and the state it leaves. On
  success it prepends the run, marks the repository and starts the interval.
\<close>

definition triggerDeployment ::
  "Repository \<Rightarrow> environment \<Rightarrow> nat \<Rightarrow> state \<Rightarrow> error option \<times> state" where
  "triggerDeployment repo env now s =
     (if repo_qualityScore repo < 85 then (Some QualityGate, s)
      else
        (None,
         (updateRepositoryStatus (repo_id repo) Deploying
            (s\<lparr>pipelines := newPipeline repo env now # pipelines s\<rparr>))
         \<lparr>intervals := intervals s @
            [\<lparr>tick_pipeline = toString now, tick_repo = repo_id repo, tick_progress = 0\<rparr>]\<rparr>))"

definition duration :: "real \<Rightarrow> string" where
  "duration progress =
     Number_toString (Math_floor (fl (progress / 10))) @ ''m '' @
     Number_toString (Math_floor (fl (js_rem progress 10 * 6))) @ ''s''"

text \<open>The \<open>setPipelines\<close> call that ends every tick.\<close>

definition tickUpdate :: "string \<Rightarrow> nat \<Rightarrow> real \<Rightarrow> state \<Rightarrow> state" where
  "tickUpdate pipelineId currentStageIndex progress s =
     s\<lparr>pipelines :=
         map (\<lambda>p. if pipe_id p = pipelineId
                   then p\<lparr>pipe_stage := stages ! currentStageIndex,
                          pipe_progress := Math_round progress,
                          pipe_duration := duration progress\<rparr>
                   else p)
           (pipelines s)\<rparr>"

text \<open>
  One firing of the \<open>k\<close>-th live interval, with \<open>random\<close> the draw of \<open>Math.random()\<close>. An
  interval that was cleared is no longer in the list and does not fire. The closure's
  \<open>progress\<close> starts at 0 and only grows, so the stage index is never negative. Each of
  \<open>*\<close>, \<open>+\<close>, \<open>+=\<close> and \<open>/\<close> rounds its result to a double.
\<close>

definition tick :: "nat \<Rightarrow> real \<Rightarrow> state \<Rightarrow> state" where
  "tick k random s =
     (if k < length (intervals s) then
        let t = intervals s ! k;
            progress = fl (tick_progress t + fl (fl (random * 15) + 5))
        in
          if progress \<ge> 100
          then tickUpdate (tick_pipeline t) (length stages - 1) 100
                 ((updateRepositoryStatus (tick_repo t) Deployed s)
                    \<lparr>intervals := remove_nth k (intervals s)\<rparr>)
          else tickUpdate (tick_pipeline t)
                 (nat \<lfloor>fl (fl (progress / 100) * real (length stages - 1))\<rfloor>) progress
                 (s\<lparr>intervals := (intervals s)[k := t\<lparr>tick_progress := progress\<rparr>]\<rparr>)
      else s)"

definition cancelDeployment :: "string \<Rightarrow> state \<Rightarrow> state" where
  "cancelDeployment pipelineId s =
     s\<lparr>pipelines :=
         map (\<lambda>p. if pipe_id p = pipelineId \<and> pipe_stage p \<noteq> Completed \<and> pipe_stage p \<noteq> Failed
                   then p\<lparr>pipe_stage := Failed, pipe_progress := pipe_progress p\<rparr>
                   else p)
           (pipelines s)\<rparr>"

definition retryDeployment :: "string \<Rightarrow> nat \<Rightarrow> state \<Rightarrow> error option \<times> state" where
  "retryDeployment pipelineId now s =
     (case List.find (\<lambda>p. pipe_id p = pipelineId) (pipelines s) of
        None \<Rightarrow> (None, s)
      | Some pipeline \<Rightarrow>
          (case List.find (\<lambda>r. repo_id r = pipe_repositoryId pipeline) (repositories s) of
             None \<Rightarrow> (None, s)
           | Some repo \<Rightarrow> triggerDeployment repo (pipe_environment pipeline) now s))"

section \<open>The dashboard as a transition system\<close>

text \<open>
  One step is one user action or one timer callback. Every draw of \<open>Math.random()\<close> is
  a double in \<open>[0, 1)\<close>; a clock reading is any number.
\<close>

definition unit_draw :: "real \<Rightarrow> bool" where
  "unit_draw r = (is_double r \<and> 0 \<le> r \<and> r < 1)"

text \<open>A clock reading is fresh when \<open>Date.now().toString()\<close> is not yet the id of a run.\<close>

definition fresh_clock :: "nat \<Rightarrow> state \<Rightarrow> bool" where
  "fresh_clock now s = (toString now \<notin> pipe_id ` set (pipelines s))"

inductive step :: "state \<Rightarrow> state \<Rightarrow> bool" where
  connect: "step s (snd (addRepository repoUrl now created s))"
| analysis:
    "k < length (timeouts s) \<Longrightarrow> timeouts s ! k = AnalysisTimeout newRepoId name \<Longrightarrow>
     unit_draw r \<Longrightarrow> (\<forall>i. unit_draw (prs i)) \<Longrightarrow> unit_draw label \<Longrightarrow> unit_draw sugg \<Longrightarrow>
     step s ((analysisCallback newRepoId name r prs label sugg now s)
               \<lparr>timeouts := remove_nth k (timeouts s)\<rparr>)"
| remove: "step s (removeRepository repoId s)"
| review: "step s (triggerManualReview repoId s)"
| reviewed:
    "k < length (timeouts s) \<Longrightarrow> timeouts s ! k = ReviewTimeout repoId \<Longrightarrow> unit_draw r \<Longrightarrow>
     step s ((manualReviewCallback repoId r s)\<lparr>timeouts := remove_nth k (timeouts s)\<rparr>)"
| refresh: "step s (refreshRepositories s)"
| refreshed:
    "k < length (timeouts s) \<Longrightarrow> timeouts s ! k = RefreshTimeout \<Longrightarrow>
     (\<forall>i. unit_draw (a i)) \<Longrightarrow> (\<forall>i. unit_draw (b i)) \<Longrightarrow>
     step s ((refreshCallback a b s)\<lparr>timeouts := remove_nth k (timeouts s)\<rparr>)"
| trigger:
    "repo \<in> set (repositories s) \<Longrightarrow> step s (snd (triggerDeployment repo env now s))"
| ticked: "k < length (intervals s) \<Longrightarrow> unit_draw r \<Longrightarrow> step s (tick k r s)"
| cancel: "step s (cancelDeployment pipelineId s)"
| retry: "step s (snd (retryDeployment pipelineId now s))"

inductive reachable :: "state \<Rightarrow> bool" where
  start: "reachable (initial t)"
| next_state: "reachable s \<Longrightarrow> step s s' \<Longrightarrow> reachable s'"

text \<open>
  Two invariants. In every reachable state the counter of a live interval is a double in
  \<open>[0, 100)\<close> and the progress a run records is an integer in \<open>[0, 100]\<close>. In the
  reachable states where no two runs share an id, moreover, the intervals belong to runs
  in the list, no two of them to the same id, and a run with a live interval records the
  rounded counter.
\<close>

definition bounded :: "state \<Rightarrow> bool" where
  "bounded s \<longleftrightarrow>
     (\<forall>t \<in> set (intervals s).
        is_double (tick_progress t) \<and> 0 \<le> tick_progress t \<and> tick_progress t < 100) \<and>
     (\<forall>p \<in> set (pipelines s).
        pipe_progress p \<in> \<int> \<and> 0 \<le> pipe_progress p \<and> pipe_progress p \<le> 100)"

definition consistent :: "state \<Rightarrow> bool" where
  "consistent s \<longleftrightarrow>
     distinct (map tick_pipeline (intervals s)) \<and>
     set (map tick_pipeline (intervals s)) \<subseteq> set (map pipe_id (pipelines s)) \<and>
     (\<forall>t \<in> set (intervals s).
        is_double (tick_progress t) \<and> 0 \<le> tick_progress t \<and> tick_progress t < 100) \<and>
     (\<forall>p \<in> set (pipelines s).
        pipe_progress p \<in> \<int> \<and> 0 \<le> pipe_progress p \<and> pipe_progress p \<le> 100) \<and>
     (\<forall>t \<in> set (intervals s). \<forall>p \<in> set (pipelines s).
        pipe_id p = tick_pipeline t \<longrightarrow> pipe_progress p = Math_round (tick_progress t))"

section \<open>Rounding to a double\<close>

text \<open>
  What the proofs below use of \<open>fl\<close>: it leaves a double as it is, and the doubles
  include the reals \<open>j * 2^p\<close> with \<open>|j| \<le> 2^53\<close> and \<open>p \<ge> -1074\<close>; its value is a double, and
  no double is nearer to the argument; it is monotone.
\<close>

subsection \<open>The exponent of a positive real\<close>

lemma bitlen_real_bounds:
  assumes "0 < n"
  shows "(2::real) powi (bitlen n - 1) \<le> of_int n" and "of_int n + 1 \<le> (2::real) powi bitlen n"
proof -
  from bitlen_bounds [OF assms] have a: "2 ^ nat (bitlen n - 1) \<le> n" and b: "n < 2 ^ nat (bitlen n)"
    by simp_all
  have bl: "1 \<le> bitlen n"
    using assms bitlen_eq_zero_iff [of n] bitlen_nonneg [of n] by linarith
  have "(2::real) powi (bitlen n - 1) = of_int (2 ^ nat (bitlen n - 1))"
    using bl by (simp add: power_int_nonneg_exp)
  also have "\<dots> \<le> of_int n"
    using a by (simp only: of_int_le_iff)
  finally show "(2::real) powi (bitlen n - 1) \<le> of_int n" .
  from b have "n + 1 \<le> 2 ^ nat (bitlen n)"
    by simp
  then have "(of_int (n + 1) :: real) \<le> of_int (2 ^ nat (bitlen n))"
    by (simp only: of_int_le_iff)
  also have "\<dots> = (2::real) powi bitlen n"
    using bl by (simp add: power_int_nonneg_exp)
  finally show "of_int n + 1 \<le> (2::real) powi bitlen n"
    by simp
qed

lemma pow2_less_iff: "(2::real) powi a < 2 powi b \<longleftrightarrow> a < b"
proof
  assume l: "(2::real) powi a < 2 powi b"
  show "a < b"
  proof (rule ccontr)
    assume "\<not> a < b"
    then have "b \<le> a"
      by simp
    then have "(2::real) powi b \<le> 2 powi a"
      by (rule power_int_increasing) simp
    with l show False
      by simp
  qed
next
  assume "a < b"
  then show "(2::real) powi a < 2 powi b"
    by (rule power_int_strict_increasing) simp
qed

lemma pow2_le_iff: "(2::real) powi a \<le> 2 powi b \<longleftrightarrow> a \<le> b"
  using pow2_less_iff [of b a] by (simp add: not_less [symmetric] del: not_less)

lemma pow2_pos: "(0::real) < 2 powi k"
  by (simp add: zero_less_power_int)

lemma pow2_add: "(2::real) powi (a + b) = 2 powi a * 2 powi b"
  by (simp add: power_int_add)

lemma pow2_diff: "(2::real) powi (a - b) = 2 powi a / 2 powi b"
  by (simp add: power_int_diff)

lemma exponent_bounds:
  assumes "0 < x"
  shows "2 powi exponent x \<le> x" and "x < 2 powi (exponent x + 1)"
proof -
  consider "1 \<le> x" | "x < 1"
    by linarith
  then have "2 powi exponent x \<le> x \<and> x < 2 powi (exponent x + 1)"
  proof cases
    case 1
    then have n: "0 < \<lfloor>x\<rfloor>"
      by simp
    have e: "exponent x = bitlen \<lfloor>x\<rfloor> - 1"
      using 1 by (simp add: exponent_def)
    have "(2::real) powi (bitlen \<lfloor>x\<rfloor> - 1) \<le> of_int \<lfloor>x\<rfloor>"
      by (rule bitlen_real_bounds(1) [OF n])
    also have "\<dots> \<le> x"
      by simp
    finally have lo: "2 powi exponent x \<le> x"
      by (simp add: e)
    have "x < of_int \<lfloor>x\<rfloor> + 1"
      by linarith
    also have "\<dots> \<le> 2 powi bitlen \<lfloor>x\<rfloor>"
      by (rule bitlen_real_bounds(2) [OF n])
    finally have "x < 2 powi (exponent x + 1)"
      by (simp add: e)
    with lo show ?thesis
      by simp
  next
    case 2
    let ?c = "\<lceil>1 / x\<rceil> - 1"
    have "1 < 1 / x"
      using assms 2 by simp
    then have c: "0 < ?c"
      by linarith
    have e: "exponent x = - bitlen ?c"
      using 2 by (simp add: exponent_def)
    have p: "(0::real) < 2 powi k" for k
      by (simp add: zero_less_power_int)
    have "1 / x \<le> of_int ?c + 1"
      by (simp add: le_of_int_ceiling)
    also have "\<dots> \<le> 2 powi bitlen ?c"
      by (rule bitlen_real_bounds(2) [OF c])
    finally have "1 / x \<le> 2 powi bitlen ?c" .
    then have "1 \<le> 2 powi bitlen ?c * x"
      using assms by (simp add: field_simps)
    then have "1 / 2 powi bitlen ?c \<le> x"
      using p [of "bitlen ?c"] by (simp add: field_simps)
    then have lo: "2 powi exponent x \<le> x"
      by (simp add: e power_int_minus_divide)
    have "(2::real) powi (bitlen ?c - 1) \<le> of_int ?c"
      by (rule bitlen_real_bounds(1) [OF c])
    also have "of_int ?c < 1 / x"
      using ceiling_correct [of "1 / x"] by linarith
    finally have "2 powi (bitlen ?c - 1) < 1 / x" .
    then have "x * 2 powi (bitlen ?c - 1) < 1"
      using assms by (simp add: field_simps)
    then have "x < 1 / 2 powi (bitlen ?c - 1)"
      using p [of "bitlen ?c - 1"] by (simp add: field_simps)
    also have "\<dots> = 2 powi (- (bitlen ?c - 1))"
      by (simp only: power_int_minus_divide)
    finally have "x < 2 powi (exponent x + 1)"
      by (simp add: e)
    with lo show ?thesis
      by simp
  qed
  then show "2 powi exponent x \<le> x" and "x < 2 powi (exponent x + 1)"
    by simp_all
qed

lemma exponent_unique:
  assumes "2 powi e \<le> x" and "x < 2 powi (e + 1)"
  shows "exponent x = e"
proof -
  have x: "0 < x"
    using assms(1) zero_less_power_int [of "2::real" e] by linarith
  note b = exponent_bounds [OF x]
  have "(2::real) powi e < 2 powi (exponent x + 1)"
    using assms(1) b(2) by linarith
  then have 1: "e < exponent x + 1"
    by (simp only: pow2_less_iff)
  have "(2::real) powi exponent x < 2 powi (e + 1)"
    using assms(2) b(1) by linarith
  then have "exponent x < e + 1"
    by (simp only: pow2_less_iff)
  with 1 show ?thesis
    by simp
qed


subsection \<open>The spacing of the doubles\<close>

lemma ulp_pos: "0 < ulp x"
  by (simp add: ulp_def pow2_pos)

lemma abs_less_ulp:
  assumes "x \<noteq> 0"
  shows "\<bar>x\<bar> < 2 ^ 53 * ulp x"
proof -
  have "\<bar>x\<bar> < 2 powi (exponent \<bar>x\<bar> + 1)"
    using assms by (intro exponent_bounds(2)) simp
  also have "\<dots> \<le> 2 powi (max (exponent \<bar>x\<bar>) (- 1022) + 1)"
    unfolding pow2_le_iff by simp
  also have "\<dots> = 2 ^ 53 * 2 powi (max (exponent \<bar>x\<bar>) (- 1022) - 52)"
    by (simp add: pow2_add pow2_diff)
  finally show ?thesis
    by (simp add: ulp_def)
qed

subsection \<open>Rounding to the nearest integer\<close>

lemma roundTiesToEven_cases:
  "roundTiesToEven q = \<lfloor>q\<rfloor> \<and> q - of_int \<lfloor>q\<rfloor> \<le> 1 / 2 \<or>
   roundTiesToEven q = \<lfloor>q\<rfloor> + 1 \<and> 1 / 2 \<le> q - of_int \<lfloor>q\<rfloor>"
  by (simp add: roundTiesToEven_def Let_def)

lemma roundTiesToEven_nearest: "\<bar>of_int (roundTiesToEven q) - q\<bar> \<le> \<bar>of_int k - q\<bar>"
proof -
  have f: "of_int \<lfloor>q\<rfloor> \<le> q" "q < of_int \<lfloor>q\<rfloor> + 1"
    by linarith+
  consider "k \<le> \<lfloor>q\<rfloor>" | "\<lfloor>q\<rfloor> + 1 \<le> k"
    by linarith
  then show ?thesis
  proof cases
    case 1
    then have "(of_int k :: real) \<le> of_int \<lfloor>q\<rfloor>"
      by (simp only: of_int_le_iff)
    with f roundTiesToEven_cases [of q] show ?thesis
      by auto
  next
    case 2
    then have "(of_int (\<lfloor>q\<rfloor> + 1) :: real) \<le> of_int k"
      by (simp only: of_int_le_iff)
    then have "of_int \<lfloor>q\<rfloor> + 1 \<le> (of_int k :: real)"
      by simp
    with f roundTiesToEven_cases [of q] show ?thesis
      by auto
  qed
qed

lemma roundTiesToEven_of_int: "roundTiesToEven (of_int k) = k"
  by (simp add: roundTiesToEven_def)

lemma roundTiesToEven_abs:
  assumes "\<bar>q\<bar> < of_int m"
  shows "\<bar>roundTiesToEven q\<bar> \<le> m"
proof -
  have "\<lfloor>q\<rfloor> < m" "- m \<le> \<lfloor>q\<rfloor>"
    using assms by (simp_all add: floor_less_iff le_floor_iff abs_less_iff)
  moreover have "q \<le> of_int (m - 1) \<or> roundTiesToEven q \<le> m"
    using roundTiesToEven_cases [of q] \<open>\<lfloor>q\<rfloor> < m\<close> by auto
  ultimately show ?thesis
    using roundTiesToEven_cases [of q] by auto
qed


subsection \<open>The rounding leaves a double as it is\<close>

lemma fl_0: "fl 0 = 0"
  by (simp add: fl_def)

lemma fl_multiple_ulp:
  assumes "x = of_int k * ulp x"
  shows "fl x = x"
proof -
  have "x / ulp x = of_int k"
    using ulp_pos [of x] assms by (simp add: field_simps)
  then show ?thesis
    using assms by (simp add: fl_def roundTiesToEven_of_int)
qed

lemma fl_grid_less:
  assumes x: "x = of_int j * 2 powi p" and j: "\<bar>j\<bar> < 2 ^ 53" and p: "- 1074 \<le> p"
  shows "fl x = x"
proof (cases "x = 0")
  case True
  then show ?thesis
    by (simp add: fl_0)
next
  case False
  let ?E = "max (exponent \<bar>x\<bar>) (- 1022)"
  have "\<bar>x\<bar> = of_int \<bar>j\<bar> * 2 powi p"
    using pow2_pos [of p] by (simp add: x abs_mult)
  also have "\<dots> < of_int (2 ^ 53) * 2 powi p"
    using j pow2_pos [of p] by (intro mult_strict_right_mono) (simp_all only: of_int_less_iff)
  also have "\<dots> = 2 powi (p + 53)"
    by (simp add: pow2_add)
  finally have "\<bar>x\<bar> < 2 powi (p + 53)" .
  moreover have "2 powi exponent \<bar>x\<bar> \<le> \<bar>x\<bar>"
    using False by (intro exponent_bounds(1)) simp
  ultimately have "(2::real) powi exponent \<bar>x\<bar> < 2 powi (p + 53)"
    by linarith
  then have "exponent \<bar>x\<bar> < p + 53"
    by (simp only: pow2_less_iff)
  with p have d: "0 \<le> p + 52 - ?E"
    by simp
  have "2 powi p = 2 powi (p + 52 - ?E) * ulp x"
    by (simp add: ulp_def pow2_add pow2_diff)
  also have "2 powi (p + 52 - ?E) = (2::real) ^ nat (p + 52 - ?E)"
    using d by (simp only: power_int_nonneg_exp)
  finally have "x = of_int (j * 2 ^ nat (p + 52 - ?E)) * ulp x"
    by (simp add: x)
  then show ?thesis
    by (rule fl_multiple_ulp)
qed

lemma fl_grid:
  assumes x: "x = of_int j * 2 powi p" and j: "\<bar>j\<bar> \<le> 2 ^ 53" and p: "- 1074 \<le> p"
  shows "fl x = x"
proof (cases "\<bar>j\<bar> < 2 ^ 53")
  case True
  with x p show ?thesis
    by (intro fl_grid_less [of x j p]) simp_all
next
  case False
  with j have "\<bar>j\<bar> = 2 ^ 53"
    by simp
  then have "j = 2 ^ 53 \<or> j = - (2 ^ 53)"
    by linarith
  then have "j = 2 * (j div 2)" and "\<bar>j div 2\<bar> < 2 ^ 53"
    by auto
  then have "x = of_int (j div 2) * 2 powi (p + 1)"
    using x by (simp add: pow2_add)
  with p \<open>\<bar>j div 2\<bar> < 2 ^ 53\<close> show ?thesis
    by (intro fl_grid_less [of x "j div 2" "p + 1"]) simp_all
qed

lemma is_double_grid:
  assumes "is_double x"
  obtains j where "x = of_int j * ulp x" and "\<bar>j\<bar> \<le> 2 ^ 53"
proof (cases "x = 0")
  case True
  then have "x = of_int 0 * ulp x" and "\<bar>0::int\<bar> \<le> 2 ^ 53"
    by simp_all
  then show ?thesis
    by (rule that)
next
  case False
  have "\<bar>x / ulp x\<bar> < of_int (2 ^ 53)"
    using abs_less_ulp [OF False] ulp_pos [of x] by (simp add: field_simps)
  then have "\<bar>roundTiesToEven (x / ulp x)\<bar> \<le> 2 ^ 53"
    by (rule roundTiesToEven_abs)
  moreover have "x = of_int (roundTiesToEven (x / ulp x)) * ulp x"
    using assms False by (simp add: is_double_def fl_def)
  ultimately show ?thesis
    using that by blast
qed

lemma fl_is_double: "is_double (fl x)"
proof (cases "x = 0")
  case True
  then show ?thesis
    by (simp add: is_double_def fl_0)
next
  case False
  have "\<bar>x / ulp x\<bar> < of_int (2 ^ 53)"
    using abs_less_ulp [OF False] ulp_pos [of x] by (simp add: field_simps)
  then have "\<bar>roundTiesToEven (x / ulp x)\<bar> \<le> 2 ^ 53"
    by (rule roundTiesToEven_abs)
  moreover have "fl x = of_int (roundTiesToEven (x / ulp x)) * 2 powi (max (exponent \<bar>x\<bar>) (- 1022) - 52)"
    using False by (simp add: fl_def ulp_def)
  ultimately have "fl (fl x) = fl x"
    by (intro fl_grid [of "fl x" "roundTiesToEven (x / ulp x)" "max (exponent \<bar>x\<bar>) (- 1022) - 52"]) simp_all
  then show ?thesis
    by (simp add: is_double_def)
qed


subsection \<open>The nearest double\<close>

lemma ulp_multiple:
  assumes "max (exponent \<bar>x\<bar>) (- 1022) \<le> max (exponent \<bar>d\<bar>) (- 1022)"
  shows "ulp d = of_int (2 ^ nat (max (exponent \<bar>d\<bar>) (- 1022) - max (exponent \<bar>x\<bar>) (- 1022))) * ulp x"
proof -
  let ?D = "max (exponent \<bar>d\<bar>) (- 1022)" and ?X = "max (exponent \<bar>x\<bar>) (- 1022)"
  have "ulp d = 2 powi (?D - ?X) * ulp x"
    by (simp add: ulp_def pow2_diff)
  also have "2 powi (?D - ?X) = (2::real) ^ nat (?D - ?X)"
    using assms by (simp only: power_int_nonneg_exp diff_ge_0_iff_ge)
  finally show ?thesis
    by simp
qed

lemma fl_nearest_multiple: "\<bar>fl x - x\<bar> \<le> \<bar>of_int k * ulp x - x\<bar>"
proof (cases "x = 0")
  case True
  then show ?thesis
    by (simp add: fl_0)
next
  case False
  have "\<bar>fl x - x\<bar> = \<bar>of_int (roundTiesToEven (x / ulp x)) - x / ulp x\<bar> * ulp x"
    using False ulp_pos [of x] by (simp add: fl_def abs_mult [symmetric] field_simps del: abs_mult)
  also have "\<dots> \<le> \<bar>of_int k - x / ulp x\<bar> * ulp x"
    using ulp_pos [of x] by (intro mult_right_mono roundTiesToEven_nearest) simp
  also have "\<dots> = \<bar>of_int k * ulp x - x\<bar>"
    using ulp_pos [of x] by (simp add: abs_mult [symmetric] field_simps del: abs_mult)
  finally show ?thesis .
qed

lemma fl_nearest:
  assumes "is_double d"
  shows "\<bar>fl x - x\<bar> \<le> \<bar>d - x\<bar>"
proof -
  let ?D = "max (exponent \<bar>d\<bar>) (- 1022)" and ?X = "max (exponent \<bar>x\<bar>) (- 1022)"
  from assms obtain j where d: "d = of_int j * ulp d"
    by (rule is_double_grid)
  consider "x = 0" | "d = 0" | "x \<noteq> 0" "?X \<le> ?D" | "x \<noteq> 0" "d \<noteq> 0" "?D < ?X"
    by linarith
  then show ?thesis
  proof cases
    case 1
    then show ?thesis
      by (simp add: fl_0)
  next
    case 2
    then show ?thesis
      using fl_nearest_multiple [of x 0] by simp
  next
    case 3
    have "d = of_int (j * 2 ^ nat (?D - ?X)) * ulp x"
      using d ulp_multiple [OF 3(2)] by simp
    then show ?thesis
      using fl_nearest_multiple [of x "j * 2 ^ nat (?D - ?X)"] by simp
  next
    case 4
    then have X: "- 1022 < exponent \<bar>x\<bar>" "?X = exponent \<bar>x\<bar>"
      by linarith+
    have "\<bar>d\<bar> < 2 powi (exponent \<bar>d\<bar> + 1)"
      using 4(2) by (intro exponent_bounds(2)) simp
    also have "\<dots> \<le> 2 powi exponent \<bar>x\<bar>"
      unfolding pow2_le_iff using 4(3) by linarith
    finally have dx: "\<bar>d\<bar> < 2 powi exponent \<bar>x\<bar>" .
    have xx: "2 powi exponent \<bar>x\<bar> \<le> \<bar>x\<bar>"
      using 4(1) by (intro exponent_bounds(1)) simp
    have "(2::real) powi exponent \<bar>x\<bar> = 2 ^ 52 * ulp x"
      using X by (simp add: ulp_def pow2_diff)
    then have m: "2 powi exponent \<bar>x\<bar> = of_int (2 ^ 52) * ulp x"
      "- (2 powi exponent \<bar>x\<bar>) = of_int (- (2 ^ 52)) * ulp x"
      by simp_all
    show ?thesis
    proof (cases "0 < x")
      case True
      have "\<bar>fl x - x\<bar> \<le> \<bar>2 powi exponent \<bar>x\<bar> - x\<bar>"
        unfolding m(1) by (rule fl_nearest_multiple)
      with dx xx True show ?thesis
        by linarith
    next
      case False
      have "\<bar>fl x - x\<bar> \<le> \<bar>- (2 powi exponent \<bar>x\<bar>) - x\<bar>"
        unfolding m(2) by (rule fl_nearest_multiple)
      with dx xx False show ?thesis
        by linarith
    qed
  qed
qed

lemma fl_mono:
  assumes "x \<le> y"
  shows "fl x \<le> fl y"
proof (rule ccontr)
  assume "\<not> fl x \<le> fl y"
  then have l: "fl y < fl x"
    by simp
  have 1: "\<bar>fl x - x\<bar> \<le> \<bar>fl y - x\<bar>"
    by (rule fl_nearest [OF fl_is_double])
  have 2: "\<bar>fl y - y\<bar> \<le> \<bar>fl x - y\<bar>"
    by (rule fl_nearest [OF fl_is_double])
  from l 1 2 assms have "x = y"
    by linarith
  with l show False
    by simp
qed

lemma fl_ge:
  assumes "is_double m" and "m \<le> x"
  shows "m \<le> fl x"
  using fl_mono [OF assms(2)] assms(1) by (simp add: is_double_def)

lemma fl_le:
  assumes "is_double m" and "x \<le> m"
  shows "fl x \<le> m"
  using fl_mono [OF assms(2)] assms(1) by (simp add: is_double_def)

subsection \<open>Integers, dyadic fractions and neighbours\<close>

lemma is_double_of_int:
  assumes "\<bar>n\<bar> \<le> 2 ^ 53"
  shows "is_double (of_int n)"
  unfolding is_double_def using assms by (intro fl_grid [of _ n 0]) simp_all

lemma is_double_dyadic:
  assumes "\<bar>j\<bar> \<le> 2 ^ 53" and "n \<le> 1074"
  shows "is_double (of_int j / 2 ^ n)"
  unfolding is_double_def using assms
  by (intro fl_grid [of _ j "- int n"]) (simp_all add: power_int_minus_divide)

lemma is_double_0: "is_double 0"
  by (simp add: is_double_def fl_0)

lemma double_on_grid:
  assumes "is_double d" and "2 powi e \<le> d" and "- 1022 \<le> e"
  obtains k where "d = of_int k * 2 powi (e - 52)"
proof -
  have d: "0 < d"
    using assms(2) pow2_pos [of e] by linarith
  have "(2::real) powi e < 2 powi (exponent d + 1)"
    using assms(2) exponent_bounds(2) [OF d] by linarith
  then have "e < exponent d + 1"
    by (simp only: pow2_less_iff)
  then have le: "e \<le> max (exponent \<bar>d\<bar>) (- 1022)"
    using d by simp
  from assms(1) obtain j where j: "d = of_int j * ulp d"
    by (rule is_double_grid)
  have "ulp d = 2 powi (max (exponent \<bar>d\<bar>) (- 1022) - e) * 2 powi (e - 52)"
    by (simp add: ulp_def pow2_diff)
  also have "2 powi (max (exponent \<bar>d\<bar>) (- 1022) - e) = (2::real) ^ nat (max (exponent \<bar>d\<bar>) (- 1022) - e)"
    using le by (simp only: power_int_nonneg_exp diff_ge_0_iff_ge)
  finally have "d = of_int (j * 2 ^ nat (max (exponent \<bar>d\<bar>) (- 1022) - e)) * 2 powi (e - 52)"
    using j by simp
  then show thesis
    by (rule that)
qed

lemma double_pred:
  assumes "is_double d" and "d < of_int M * 2 powi (e - 52)" and "- 1022 \<le> e"
    and "(2::real) powi e \<le> of_int (M - 1) * 2 powi (e - 52)"
  shows "d \<le> of_int (M - 1) * 2 powi (e - 52)"
proof (cases "2 powi e \<le> d")
  case False
  with assms(4) show ?thesis
    by linarith
next
  case True
  with assms(1) obtain k where k: "d = of_int k * 2 powi (e - 52)"
    using assms(3) by (rule double_on_grid)
  have "of_int k * 2 powi (e - 52) < of_int M * (2::real) powi (e - 52)"
    using assms(2) by (simp only: k)
  then have "(of_int k :: real) < of_int M"
    using pow2_pos [of "e - 52"] by (simp only: mult_less_cancel_right_pos)
  then have "k \<le> M - 1"
    by simp
  then have "(of_int k :: real) \<le> of_int (M - 1)"
    by (simp only: of_int_le_iff)
  then show ?thesis
    unfolding k using pow2_pos [of "e - 52"] by (simp only: mult_le_cancel_right_pos)
qed

lemma double_below:
  assumes d: "is_double d" and less: "d < of_int M / 2 ^ n" and n: "n \<le> 1074" and M: "2 ^ 52 \<le> M - 1"
  shows "d \<le> of_int (M - 1) / 2 ^ n"
proof -
  have p: "(2::real) powi (52 - int n - 52) = 1 / 2 ^ n"
    by (simp add: power_int_minus_divide)
  have "(of_int (2 ^ 52) :: real) \<le> of_int (M - 1)"
    using M by (simp only: of_int_le_iff)
  then have "(2::real) ^ 52 / 2 ^ n \<le> of_int (M - 1) / 2 ^ n"
    by (simp add: divide_right_mono)
  then have "(2::real) powi (52 - int n) \<le> of_int (M - 1) * 2 powi (52 - int n - 52)"
    unfolding p by (simp add: pow2_diff)
  moreover have "d < of_int M * 2 powi (52 - int n - 52)"
    unfolding p using less by simp
  moreover have "- 1022 \<le> 52 - int n"
    using n by simp
  ultimately have "d \<le> of_int (M - 1) * 2 powi (52 - int n - 52)"
    by (rule double_pred [OF d, rotated 2])
  then show ?thesis
    unfolding p by simp
qed

subsection \<open>Products with a draw\<close>

text \<open>The largest double below 1 is \<open>1 - 2^-53\<close>.\<close>

lemma draw_max:
  assumes "unit_draw r"
  shows "r \<le> 1 - 1 / 2 ^ 53"
proof -
  have "is_double r" "r < of_int (2 ^ 53) / 2 ^ 53"
    using assms by (simp_all add: unit_draw_def)
  then have "r \<le> of_int (2 ^ 53 - 1) / 2 ^ 53"
    by (rule double_below) simp_all
  then show ?thesis
    by simp
qed

lemma fl_below:
  assumes d: "is_double (c - w)" and w: "0 < w" and x: "x \<le> c - v" and v: "w < 2 * v"
  shows "fl x < c"
proof (cases "x \<le> c - w")
  case True
  then have "fl x \<le> c - w"
    by (rule fl_le [OF d])
  with w show ?thesis
    by simp
next
  case False
  have "\<bar>fl x - x\<bar> \<le> \<bar>(c - w) - x\<bar>"
    by (rule fl_nearest [OF d])
  with False x v show ?thesis
    by linarith
qed

lemma fl_scaled_draw:
  assumes r: "unit_draw r" and c: "0 < c" and d: "is_double (c - w)" and w: "0 < w" "w < c / 2 ^ 52"
  shows "0 \<le> fl (r * c)" and "fl (r * c) < c"
proof -
  have "0 \<le> r * c"
    using r c by (simp add: unit_draw_def)
  then show "0 \<le> fl (r * c)"
    by (rule fl_ge [OF is_double_0])
  have "r * c \<le> (1 - 1 / 2 ^ 53) * c"
    using draw_max [OF r] c by (simp only: mult_le_cancel_right_pos)
  then have "r * c \<le> c - c / 2 ^ 53"
    by (simp add: algebra_simps)
  moreover have "w < 2 * (c / 2 ^ 53)"
    using w(2) by simp
  ultimately show "fl (r * c) < c"
    using d w(1) by (intro fl_below [of c w "r * c" "c / 2 ^ 53"])
qed

text \<open>Below 128 the doubles are at most \<open>2^-46\<close> apart.\<close>

lemma fl_error_128:
  assumes "0 \<le> x" and "x < 128"
  shows "\<bar>fl x - x\<bar> \<le> 1 / 2 ^ 47"
proof -
  define n where "n = \<lfloor>x * 2 ^ 46\<rfloor>"
  have n: "of_int n \<le> x * 2 ^ 46" "x * 2 ^ 46 < of_int n + 1"
    unfolding n_def by linarith+
  have "0 \<le> n"
    using assms(1) by (simp add: n_def)
  moreover have "x * 2 ^ 46 < 128 * 2 ^ 46"
    using assms(2) by simp
  then have "n < 2 ^ 53"
    unfolding n_def by (simp add: floor_less_iff)
  ultimately have b: "\<bar>n\<bar> \<le> 2 ^ 53" "\<bar>n + 1\<bar> \<le> 2 ^ 53"
    by simp_all
  define lo :: real where "lo = of_int n / 2 ^ 46"
  define hi :: real where "hi = of_int (n + 1) / 2 ^ 46"
  have 1: "\<bar>fl x - x\<bar> \<le> \<bar>lo - x\<bar>"
    unfolding lo_def by (rule fl_nearest [OF is_double_dyadic [OF b(1)]]) simp
  have 2: "\<bar>fl x - x\<bar> \<le> \<bar>hi - x\<bar>"
    unfolding hi_def by (rule fl_nearest [OF is_double_dyadic [OF b(2)]]) simp
  have "lo \<le> x" "x < hi"
    using n by (simp_all add: lo_def hi_def field_simps)
  moreover have "hi - lo = 1 / 2 ^ 46"
    by (simp add: lo_def hi_def field_simps)
  ultimately show ?thesis
    using 1 2 by simp
qed


subsection \<open>The stage index\<close>

text \<open>
  For a double \<open>c\<close> in \<open>[0, 100)\<close> the index \<open>floor((c / 100) * 4)\<close> computed in doubles is
  the exact \<open>floor(c / 25)\<close>: the quotient \<open>c / 100\<close> is never rounded up to a quarter.
\<close>

lemma is_double_times_4:
  assumes "is_double y"
  shows "is_double (y * 4)"
proof -
  from assms obtain j where j: "y = of_int j * ulp y" "\<bar>j\<bar> \<le> 2 ^ 53"
    by (rule is_double_grid)
  define p where "p = max (exponent \<bar>y\<bar>) (- 1022) - 52"
  have "(2::real) powi (p + 2) = 2 powi p * 2 powi 2"
    by (rule pow2_add)
  then have "y * 4 = of_int j * 2 powi (p + 2)"
    by (subst j(1)) (simp add: ulp_def p_def)
  then have "fl (y * 4) = y * 4"
    using j(2) by (rule fl_grid) (simp add: p_def)
  then show ?thesis
    by (simp add: is_double_def)
qed

lemma fl_div_100_below:
  assumes c: "c \<le> m - w" and d: "is_double (m / 100 - v)" and v: "0 < v" "v < w / 50"
  shows "fl (c / 100) < m / 100"
proof -
  have "c / 100 \<le> m / 100 - w / 100"
    using c by simp
  moreover have "v < 2 * (w / 100)"
    using v(2) by simp
  ultimately show ?thesis
    using d v(1) by (intro fl_below [of "m / 100" v "c / 100" "w / 100"])
qed

lemma stage_bound_25:
  assumes "is_double c" and "c < 25"
  shows "fl (c / 100) < 1 / 4"
proof -
  have "c < of_int (25 * 2 ^ 48) / 2 ^ 48"
    using assms(2) by simp
  with assms(1) have "c \<le> of_int (25 * 2 ^ 48 - 1) / 2 ^ 48"
    by (rule double_below) simp_all
  then have c: "c \<le> 25 - 1 / 2 ^ 48"
    by simp
  have "is_double (of_int (2 ^ 53 - 1) / 2 ^ 55)"
    by (rule is_double_dyadic) simp_all
  then have d: "is_double (25 / 100 - 1 / 2 ^ 55)"
    by simp
  have "fl (c / 100) < 25 / 100"
    using c d by (rule fl_div_100_below) simp_all
  then show ?thesis
    by simp
qed

lemma stage_bound_50:
  assumes "is_double c" and "c < 50"
  shows "fl (c / 100) < 1 / 2"
proof -
  have "c < of_int (50 * 2 ^ 47) / 2 ^ 47"
    using assms(2) by simp
  with assms(1) have "c \<le> of_int (50 * 2 ^ 47 - 1) / 2 ^ 47"
    by (rule double_below) simp_all
  then have c: "c \<le> 50 - 1 / 2 ^ 47"
    by simp
  have "is_double (of_int (2 ^ 53 - 1) / 2 ^ 54)"
    by (rule is_double_dyadic) simp_all
  then have d: "is_double (50 / 100 - 1 / 2 ^ 54)"
    by simp
  have "fl (c / 100) < 50 / 100"
    using c d by (rule fl_div_100_below) simp_all
  then show ?thesis
    by simp
qed

lemma stage_bound_75:
  assumes "is_double c" and "c < 75"
  shows "fl (c / 100) < 3 / 4"
proof -
  have "c < of_int (75 * 2 ^ 46) / 2 ^ 46"
    using assms(2) by simp
  with assms(1) have "c \<le> of_int (75 * 2 ^ 46 - 1) / 2 ^ 46"
    by (rule double_below) simp_all
  then have c: "c \<le> 75 - 1 / 2 ^ 46"
    by simp
  have "is_double (of_int (3 * 2 ^ 51 - 1) / 2 ^ 53)"
    by (rule is_double_dyadic) simp_all
  then have d: "is_double (75 / 100 - 1 / 2 ^ 53)"
    by simp
  have "fl (c / 100) < 75 / 100"
    using c d by (rule fl_div_100_below) simp_all
  then show ?thesis
    by simp
qed

lemma stage_bound_100:
  assumes "is_double c" and "c < 100"
  shows "fl (c / 100) < 1"
proof -
  have "c < of_int (100 * 2 ^ 46) / 2 ^ 46"
    using assms(2) by simp
  with assms(1) have "c \<le> of_int (100 * 2 ^ 46 - 1) / 2 ^ 46"
    by (rule double_below) simp_all
  then have c: "c \<le> 100 - 1 / 2 ^ 46"
    by simp
  have "is_double (of_int (2 ^ 53 - 1) / 2 ^ 53)"
    by (rule is_double_dyadic) simp_all
  then have d: "is_double (100 / 100 - 1 / 2 ^ 53)"
    by simp
  have "fl (c / 100) < 100 / 100"
    using c d by (rule fl_div_100_below) simp_all
  then show ?thesis
    by simp
qed

lemma fl_div_100_above:
  assumes "of_int j * 25 \<le> c" and "\<bar>j\<bar> \<le> 4"
  shows "of_int j \<le> fl (c / 100) * 4"
proof -
  have "is_double (of_int j / 2 ^ 2)"
    using assms(2) by (intro is_double_dyadic) simp_all
  moreover have "of_int j / 2 ^ 2 \<le> c / 100"
    using assms(1) by simp
  ultimately have "of_int j / 2 ^ 2 \<le> fl (c / 100)"
    by (rule fl_ge)
  then show ?thesis
    by simp
qed

lemma stage_index:
  assumes d: "is_double c" and c: "0 \<le> c" "c < 100"
  shows "\<lfloor>fl (fl (c / 100) * 4)\<rfloor> = \<lfloor>c / 25\<rfloor>"
proof -
  define j where "j = \<lfloor>c / 25\<rfloor>"
  have "of_int j \<le> c / 25" "c / 25 < of_int j + 1"
    unfolding j_def by linarith+
  then have j: "of_int j * 25 \<le> c" "c < of_int (j + 1) * 25"
    by (simp_all add: field_simps)
  have "0 \<le> j" "j < 4"
    using c by (simp_all add: j_def floor_less_iff)
  then consider "j = 0" | "j = 1" | "j = 2" | "j = 3"
    by linarith
  then have up: "fl (c / 100) * 4 < of_int j + 1"
  proof cases
    case 1
    with j(2) stage_bound_25 [OF d] show ?thesis by simp
  next
    case 2
    with j(2) stage_bound_50 [OF d] show ?thesis by simp
  next
    case 3
    with j(2) stage_bound_75 [OF d] show ?thesis by simp
  next
    case 4
    with j(2) stage_bound_100 [OF d] show ?thesis by simp
  qed
  have lo: "of_int j \<le> fl (c / 100) * 4"
    using j(1) \<open>0 \<le> j\<close> \<open>j < 4\<close> by (intro fl_div_100_above) simp_all
  have "fl (fl (c / 100) * 4) = fl (c / 100) * 4"
    using is_double_times_4 [OF fl_is_double] by (simp add: is_double_def)
  with lo up have "\<lfloor>fl (fl (c / 100) * 4)\<rfloor> = j"
    by (simp add: floor_eq_iff)
  then show ?thesis
    by (simp add: j_def)
qed

subsection \<open>The rounding evaluated\<close>

lemma fl_eval:
  assumes "2 powi e \<le> x" and "x < 2 powi (e + 1)" and "- 1022 \<le> e"
  shows "fl x = of_int (roundTiesToEven (x / 2 powi (e - 52))) * 2 powi (e - 52)"
proof -
  have x: "0 < x"
    using assms(1) pow2_pos [of e] by linarith
  have "exponent x = e"
    using assms(1,2) by (rule exponent_unique)
  then have "ulp x = 2 powi (e - 52)"
    using x assms(3) by (simp add: ulp_def)
  then show ?thesis
    using x by (simp add: fl_def)
qed

lemma largest_draw:
  "unit_draw (1 - 1 / 2 ^ 53)"
  "fl ((1 - 1 / 2 ^ 53) * 15) = 15 - 1 / 2 ^ 49"
  "fl (15 - 1 / 2 ^ 49 + 5) = 20"
proof -
  have "is_double (of_int (2 ^ 53 - 1) / 2 ^ 53)"
    by (rule is_double_dyadic) simp_all
  then show "unit_draw (1 - 1 / 2 ^ 53)"
    by (simp add: unit_draw_def)
  show "fl ((1 - 1 / 2 ^ 53) * 15) = 15 - 1 / 2 ^ 49"
    by (subst fl_eval [where e = 3]) (simp_all add: roundTiesToEven_def)
  show "fl (15 - 1 / 2 ^ 49 + 5) = 20"
    by (subst fl_eval [where e = 4]) (simp_all add: roundTiesToEven_def)
qed
section \<open>The quality gate of a deployment trigger\<close>

text \<open>
  Claim C3. For a repository whose quality score is strictly below 85, triggering a
  deployment, for either environment, is rejected: the alert is raised and the state
  returned is the state given, so no pipeline run is created, the pipeline list is
  unchanged, and the registry (the repository's status and every other field), the reviews
  and the timers are unchanged too.
\<close>

theorem triggerDeployment_below_gate:
  assumes "repo_qualityScore repo < 85"
  shows "triggerDeployment repo env now s = (Some QualityGate, s) \<and>
         pipelines (snd (triggerDeployment repo env now s)) = pipelines s \<and>
         repositories (snd (triggerDeployment repo env now s)) = repositories s \<and>
         intervals (snd (triggerDeployment repo env now s)) = intervals s"
  using assms by (simp add: triggerDeployment_def)

theorem triggerDeployment_below_gate_witness:
  "repo_qualityScore (initialRepositories 0 ! 2) = 74 \<and>
   triggerDeployment (initialRepositories 0 ! 2) Production 1700000000000 (initial 0)
     = (Some QualityGate, initial 0)"
proof -
  have low: "repo_qualityScore (initialRepositories 0 ! 2) < 85"
    by (simp add: initialRepositories_def)
  show ?thesis
    using triggerDeployment_below_gate [OF low, of Production 1700000000000 "initial 0"]
    by (simp add: initialRepositories_def)
qed

section \<open>Removing a repository\<close>

text \<open>
  Claim C6. Removing a repository id deletes exactly the reviews whose \<open>repositoryId\<close> is
  that id: none of them is left, and the other reviews are the same records, in the same
  order, as before. The same holds for the registry and the repositories with that id.
  No pipeline run is deleted or changed (the runs stay as history), and no timer is.
\<close>

theorem removeRepository_cascade:
  "filter (\<lambda>v. review_repositoryId v = repoId) (reviews (removeRepository repoId s)) = [] \<and>
   filter (\<lambda>v. review_repositoryId v \<noteq> repoId) (reviews (removeRepository repoId s))
     = filter (\<lambda>v. review_repositoryId v \<noteq> repoId) (reviews s) \<and>
   set (reviews (removeRepository repoId s))
     = set (reviews s) - {v. review_repositoryId v = repoId} \<and>
   filter (\<lambda>r. repo_id r = repoId) (repositories (removeRepository repoId s)) = [] \<and>
   filter (\<lambda>r. repo_id r \<noteq> repoId) (repositories (removeRepository repoId s))
     = filter (\<lambda>r. repo_id r \<noteq> repoId) (repositories s) \<and>
   pipelines (removeRepository repoId s) = pipelines s \<and>
   intervals (removeRepository repoId s) = intervals s \<and>
   timeouts (removeRepository repoId s) = timeouts s"
  by (auto simp add: removeRepository_def filter_empty_conv)

section \<open>Connecting a repository: the shape of the URL\<close>

lemma urlParts_onlyowner: "urlParts ''https://github.com/onlyowner'' = [''onlyowner'']"
  by (simp add: urlParts_def)

text \<open>
  Claim C2, as the code has it. \<open>addRepository\<close> succeeds exactly when the URL, with the
  first occurrence of \<open>https://github.com/\<close> removed and then split on \<open>/\<close>, has exactly two
  segments and no tracked repository has that owner and name. The segments are not
  checked for emptiness. An input with another number of segments is rejected, and every
  rejected input leaves the state (registry, reviews and the rest) as it was.
\<close>

theorem addRepository_segments:
  "(fst (addRepository repoUrl now created s) \<longleftrightarrow>
      length (urlParts repoUrl) = 2 \<and>
      \<not> (\<exists>repo \<in> set (repositories s).
            repo_owner repo = urlParts repoUrl ! 0 \<and> repo_name repo = urlParts repoUrl ! 1)) \<and>
   (length (urlParts repoUrl) \<noteq> 2 \<longrightarrow> addRepository repoUrl now created s = (False, s)) \<and>
   (\<not> fst (addRepository repoUrl now created s) \<longrightarrow>
      snd (addRepository repoUrl now created s) = s)"
  by (simp add: addRepository_def addRepository_try_def Let_def)

theorem addRepository_segments_witness:
  "length (urlParts ''https://github.com/onlyowner'') \<noteq> 2 \<and>
   addRepository ''https://github.com/onlyowner'' 1700000000000 1700000000001 (initial 0)
     = (False, initial 0)"
  using addRepository_segments
    [of "''https://github.com/onlyowner''" 1700000000000 1700000000001 "initial 0"]
  by (simp add: urlParts_onlyowner)

text \<open>
  Claim C2 as stated fails: a URL with a trailing slash has two segments, the second one
  empty, and is accepted; the registry grows by a repository whose name is empty.
\<close>

theorem addRepository_empty_segment_accepted:
  "urlParts ''https://github.com/owner/'' = [''owner'', []] \<and>
   fst (addRepository ''https://github.com/owner/'' 1700000000000 1700000000001 (initial 0)) \<and>
   length (repositories (snd (addRepository ''https://github.com/owner/'' 1700000000000
      1700000000001 (initial 0)))) = 4 \<and>
   length (repositories (initial 0)) = 3 \<and>
   repo_name (last (repositories (snd (addRepository ''https://github.com/owner/'' 1700000000000
      1700000000001 (initial 0))))) = []"
  by (simp add: urlParts_def addRepository_def addRepository_try_def initial_def
      initialRepositories_def newRepo_def)

section \<open>What a tick computes\<close>

subsection \<open>Elements of a list mapped by a conditional update\<close>

lemma in_set_map_ifE:
  assumes "y \<in> set (map (\<lambda>x. if P x then f x else x) xs)"
  obtains x where "x \<in> set xs" "P x" "y = f x" | "y \<in> set xs" "\<not> P y"
  using assms by auto

lemma map_if_key:
  assumes "\<And>x. g (f x) = g x"
  shows "map g (map (\<lambda>x. if P x then f x else x) xs) = map g xs"
  using assms by (induction xs) simp_all

lemma hd_map_if:
  assumes "xs \<noteq> []"
  shows "hd (map (\<lambda>x. if P x then f x else x) xs) = (if P (hd xs) then f (hd xs) else hd xs)"
  using assms by (cases xs) simp_all

subsection \<open>The update of the runs and of the registry\<close>

lemma tickUpdate_frame:
  "repositories (tickUpdate pid idx c s) = repositories s"
  "reviews (tickUpdate pid idx c s) = reviews s"
  "intervals (tickUpdate pid idx c s) = intervals s"
  "timeouts (tickUpdate pid idx c s) = timeouts s"
  by (simp_all add: tickUpdate_def)

lemma tickUpdate_pipelines:
  "pipelines (tickUpdate pid idx c s)
     = map (\<lambda>p. if pipe_id p = pid
                 then p\<lparr>pipe_stage := stages ! idx, pipe_progress := Math_round c,
                        pipe_duration := duration c\<rparr>
                 else p) (pipelines s)"
  by (simp add: tickUpdate_def)

lemma tickUpdate_head:
  assumes "pipelines s \<noteq> []" and "pipe_id (hd (pipelines s)) = pid"
  shows "pipelines (tickUpdate pid idx c s) \<noteq> []"
    and "pipe_id (hd (pipelines (tickUpdate pid idx c s))) = pid"
    and "pipe_stage (hd (pipelines (tickUpdate pid idx c s))) = stages ! idx"
    and "pipe_progress (hd (pipelines (tickUpdate pid idx c s))) = Math_round c"
  using assms by (simp_all add: tickUpdate_pipelines hd_map_if)

lemma stages_last: "length stages - 1 = 4" "length stages - Suc 0 = 4"
  by (simp_all add: stages_def)

lemma stages_nth:
  assumes "n < 4"
  shows "stages ! n = [Build, Test, Security, Deploy] ! n"
  using assms by (simp add: stages_def nth_Cons')

lemma triggerDeployment_accepted:
  assumes "85 \<le> repo_qualityScore repo"
  shows "fst (triggerDeployment repo env now s) = None"
    and "pipelines (snd (triggerDeployment repo env now s)) = newPipeline repo env now # pipelines s"
    and "repositories (snd (triggerDeployment repo env now s))
           = repositories (updateRepositoryStatus (repo_id repo) Deploying s)"
    and "intervals (snd (triggerDeployment repo env now s))
           = intervals s @ [\<lparr>tick_pipeline = toString now, tick_repo = repo_id repo,
                             tick_progress = 0\<rparr>]"
    and "reviews (snd (triggerDeployment repo env now s)) = reviews s"
    and "timeouts (snd (triggerDeployment repo env now s)) = timeouts s"
  using assms by (simp_all add: triggerDeployment_def updateRepositoryStatus_def)

subsection \<open>The counter of an interval\<close>

lemma draw_increment:
  assumes "unit_draw r"
  shows "5 \<le> fl (fl (r * 15) + 5)" and "fl (fl (r * 15) + 5) \<le> 20"
    and "\<bar>fl (fl (r * 15) + 5) - (r * 15 + 5)\<bar> \<le> 1 / 2 ^ 46"
proof -
  have "is_double (of_int (15 * 2 ^ 49 - 1) / 2 ^ 49)"
    by (rule is_double_dyadic) simp_all
  then have "is_double (15 - 1 / 2 ^ 49)"
    by simp
  then have b: "0 \<le> fl (r * 15)" "fl (r * 15) < 15"
    using fl_scaled_draw [OF assms, of 15 "1 / 2 ^ 49"] by simp_all
  have 5: "is_double 5" and 20: "is_double 20"
    using is_double_of_int [of 5] is_double_of_int [of 20] by simp_all
  show "5 \<le> fl (fl (r * 15) + 5)"
    using b(1) by (intro fl_ge [OF 5]) simp
  show "fl (fl (r * 15) + 5) \<le> 20"
    using b(2) by (intro fl_le [OF 20]) simp
  have r: "0 \<le> r" "r < 1"
    using assms by (simp_all add: unit_draw_def)
  define e :: real where "e = 1 / 2 ^ 47"
  have "\<bar>fl (r * 15) - r * 15\<bar> \<le> e"
    unfolding e_def using r by (intro fl_error_128) simp_all
  moreover have "\<bar>fl (fl (r * 15) + 5) - (fl (r * 15) + 5)\<bar> \<le> e"
    unfolding e_def using b by (intro fl_error_128) simp_all
  ultimately have "\<bar>fl (fl (r * 15) + 5) - (r * 15 + 5)\<bar> \<le> 2 * e"
    by linarith
  then show "\<bar>fl (fl (r * 15) + 5) - (r * 15 + 5)\<bar> \<le> 1 / 2 ^ 46"
    by (simp add: e_def)
qed

lemma counter_advance:
  assumes d: "is_double c0" and c0: "0 \<le> c0" "c0 < 100" and a: "5 \<le> a" "a \<le> 20"
  shows "c0 < fl (c0 + a)" and "\<bar>fl (c0 + a) - (c0 + a)\<bar> \<le> 1 / 2 ^ 47"
    and "c0 + 5 - 1 / 2 ^ 47 \<le> fl (c0 + a)" and "fl (c0 + a) \<le> c0 + 20 + 1 / 2 ^ 47"
proof -
  have "0 \<le> \<lfloor>c0\<rfloor>" "\<lfloor>c0\<rfloor> < 100"
    using c0 by (simp_all add: floor_less_iff)
  then have "is_double (of_int (\<lfloor>c0\<rfloor> + 1))"
    by (intro is_double_of_int) simp
  moreover have "of_int \<lfloor>c0\<rfloor> + 1 \<le> c0 + a"
    using a(1) by linarith
  then have "of_int (\<lfloor>c0\<rfloor> + 1) \<le> c0 + a"
    by simp
  ultimately have "of_int (\<lfloor>c0\<rfloor> + 1) \<le> fl (c0 + a)"
    by (rule fl_ge)
  moreover have "c0 < of_int (\<lfloor>c0\<rfloor> + 1)"
    by linarith
  ultimately show "c0 < fl (c0 + a)"
    by linarith
  show e: "\<bar>fl (c0 + a) - (c0 + a)\<bar> \<le> 1 / 2 ^ 47"
    using c0 a by (intro fl_error_128) simp_all
  from e a show "c0 + 5 - 1 / 2 ^ 47 \<le> fl (c0 + a)" and "fl (c0 + a) \<le> c0 + 20 + 1 / 2 ^ 47"
    by linarith+
qed

lemma stage_index_range:
  assumes "is_double c" and "0 \<le> c" and "c < 100"
  shows "nat \<lfloor>fl (fl (c / 100) * 4)\<rfloor> = nat \<lfloor>c / 100 * 4\<rfloor>" and "nat \<lfloor>c / 100 * 4\<rfloor> < 4"
proof -
  have "c / 100 * 4 = c / 25"
    by simp
  with stage_index [OF assms] show "nat \<lfloor>fl (fl (c / 100) * 4)\<rfloor> = nat \<lfloor>c / 100 * 4\<rfloor>"
    by simp
  have "c / 100 * 4 < 4"
    using assms(3) by simp
  then have "\<lfloor>c / 100 * 4\<rfloor> < 4"
    by (simp add: floor_less_iff)
  then show "nat \<lfloor>c / 100 * 4\<rfloor> < 4"
    by linarith
qed

subsection \<open>The two branches of a tick\<close>

lemma tick_running:
  assumes "k < length (intervals s)"
    and "c = fl (tick_progress (intervals s ! k) + fl (fl (r * 15) + 5))" and "c < 100"
  shows "tick k r s
    = tickUpdate (tick_pipeline (intervals s ! k)) (nat \<lfloor>fl (fl (c / 100) * 4)\<rfloor>) c
        (s\<lparr>intervals := (intervals s)[k := (intervals s ! k)\<lparr>tick_progress := c\<rparr>]\<rparr>)"
  using assms by (simp add: tick_def Let_def stages_last)

lemma tick_done:
  assumes "k < length (intervals s)"
    and "c = fl (tick_progress (intervals s ! k) + fl (fl (r * 15) + 5))" and "100 \<le> c"
  shows "tick k r s
    = tickUpdate (tick_pipeline (intervals s ! k)) 4 100
        ((updateRepositoryStatus (tick_repo (intervals s ! k)) Deployed s)
           \<lparr>intervals := remove_nth k (intervals s)\<rparr>)"
  using assms by (simp add: tick_def Let_def stages_last)

text \<open>A tick of an interval that holds the id of the run at the head of the list.\<close>

lemma tick_head_running:
  assumes k: "k < length (intervals s)"
    and ne: "pipelines s \<noteq> []"
    and hd: "pipe_id (hd (pipelines s)) = tick_pipeline (intervals s ! k)"
    and c: "c = fl (tick_progress (intervals s ! k) + fl (fl (r * 15) + 5))"
    and range: "0 \<le> c" "c < 100"
  shows "intervals (tick k r s) = (intervals s)[k := (intervals s ! k)\<lparr>tick_progress := c\<rparr>]"
    and "pipelines (tick k r s) \<noteq> []"
    and "pipe_id (hd (pipelines (tick k r s))) = pipe_id (hd (pipelines s))"
    and "pipe_stage (hd (pipelines (tick k r s))) = stages ! nat \<lfloor>c / 100 * 4\<rfloor>"
    and "pipe_progress (hd (pipelines (tick k r s))) = Math_round c"
    and "repositories (tick k r s) = repositories s"
proof -
  have d: "is_double c"
    unfolding c by (rule fl_is_double)
  define s1 where "s1 = s\<lparr>intervals := (intervals s)[k := (intervals s ! k)\<lparr>tick_progress := c\<rparr>]\<rparr>"
  have eq: "tick k r s = tickUpdate (tick_pipeline (intervals s ! k)) (nat \<lfloor>c / 100 * 4\<rfloor>) c s1"
    unfolding s1_def tick_running [OF k c range(2)] stage_index_range(1) [OF d range] ..
  have s1: "pipelines s1 \<noteq> []" "pipe_id (hd (pipelines s1)) = tick_pipeline (intervals s ! k)"
    using ne hd by (simp_all add: s1_def)
  show "intervals (tick k r s) = (intervals s)[k := (intervals s ! k)\<lparr>tick_progress := c\<rparr>]"
    and "repositories (tick k r s) = repositories s"
    by (simp_all add: eq tickUpdate_frame s1_def)
  show "pipelines (tick k r s) \<noteq> []"
    and "pipe_id (hd (pipelines (tick k r s))) = pipe_id (hd (pipelines s))"
    and "pipe_stage (hd (pipelines (tick k r s))) = stages ! nat \<lfloor>c / 100 * 4\<rfloor>"
    and "pipe_progress (hd (pipelines (tick k r s))) = Math_round c"
    unfolding eq using tickUpdate_head [OF s1] hd by simp_all
qed

lemma cancelDeployment_head:
  assumes "pipelines s \<noteq> []" and "pipe_id (hd (pipelines s)) = pid"
    and "pipe_stage (hd (pipelines s)) \<noteq> Completed" and "pipe_stage (hd (pipelines s)) \<noteq> Failed"
  shows "intervals (cancelDeployment pid s) = intervals s"
    and "pipelines (cancelDeployment pid s) \<noteq> []"
    and "pipe_id (hd (pipelines (cancelDeployment pid s))) = pid"
    and "pipe_stage (hd (pipelines (cancelDeployment pid s))) = Failed"
    and "pipe_progress (hd (pipelines (cancelDeployment pid s))) = pipe_progress (hd (pipelines s))"
  using assms by (simp_all add: cancelDeployment_def hd_map_if)

text \<open>Draws whose products and sums are doubles: nothing is rounded.\<close>

lemma exact_values:
  "fl (15 / 2) = 15 / 2" "fl (25 / 2) = 25 / 2" "fl 25 = 25"
  "fl (15 / 8) = 15 / 8" "fl (55 / 8) = 55 / 8" "fl (105 / 8) = 105 / 8" "fl (145 / 8) = 145 / 8"
  using is_double_dyadic [of 15 1] is_double_dyadic [of 25 1] is_double_of_int [of 25]
    is_double_dyadic [of 15 3] is_double_dyadic [of 55 3] is_double_dyadic [of 105 3]
    is_double_dyadic [of 145 3]
  by (simp_all add: is_double_def)

lemma unit_draw_examples: "unit_draw (1 / 2)" "unit_draw (1 / 8)" "unit_draw (7 / 8)"
  using is_double_dyadic [of 1 1] is_double_dyadic [of 1 3] is_double_dyadic [of 7 3]
  by (simp_all add: unit_draw_def)

subsection \<open>The rounding at two draws\<close>

text \<open>
  The doubles written \<open>0.7\<close> and \<open>0.3\<close> lie just below \<open>7/10\<close> and \<open>3/10\<close>; their products
  with 40, 10, 200 and 15 lie just below an integer or a half and round up to it.
\<close>

lemma double_seven_tenths:
  "fl (7 / 10) = 3152519739159347 / 4503599627370496"
  "fl (3152519739159347 / 4503599627370496 * 40) = 28"
  "fl (3152519739159347 / 4503599627370496 * 10) = 7"
  "fl (3152519739159347 / 4503599627370496 * 200) = 140"
  "fl (3152519739159347 / 4503599627370496 * 15) = 21 / 2"
  "fl (3 / 10) = 5404319552844595 / 18014398509481984"
  "fl (5404319552844595 / 18014398509481984 * 10) = 3"
proof -
  show "fl (7 / 10) = 3152519739159347 / 4503599627370496"
    by (subst fl_eval [where e = "- 1"]) (simp_all add: roundTiesToEven_def)
  show "fl (3152519739159347 / 4503599627370496 * 40) = 28"
    by (subst fl_eval [where e = 4]) (simp_all add: roundTiesToEven_def)
  show "fl (3152519739159347 / 4503599627370496 * 10) = 7"
    by (subst fl_eval [where e = 2]) (simp_all add: roundTiesToEven_def)
  show "fl (3152519739159347 / 4503599627370496 * 200) = 140"
    by (subst fl_eval [where e = 7]) (simp_all add: roundTiesToEven_def)
  show "fl (3152519739159347 / 4503599627370496 * 15) = 21 / 2"
    by (subst fl_eval [where e = 3]) (simp_all add: roundTiesToEven_def)
  show "fl (3 / 10) = 5404319552844595 / 18014398509481984"
    by (subst fl_eval [where e = "- 2"]) (simp_all add: roundTiesToEven_def)
  show "fl (5404319552844595 / 18014398509481984 * 10) = 3"
    by (subst fl_eval [where e = 1]) (simp_all add: roundTiesToEven_def)
qed

lemma draws_seven_tenths:
  "unit_draw (fl (7 / 10))"
  "analysisScore (fl (7 / 10)) = 88"
  "newScore (fl (7 / 10)) = 88"
  "review_suggestions (newReview i nm score (fl (7 / 10)) (fl (7 / 10)) now) = 8"
  "review_pullRequest (newReview i nm score (fl (7 / 10)) (fl (7 / 10)) now) = ''#141''"
  "Math_round (fl (0 + fl (fl (fl (7 / 10) * 15) + 5))) = 16"
  "Math_floor (fl (fl (3 / 10) * 10)) = 3"
proof -
  have exact: "fl 8 = 8" "fl 88 = 88" "fl 141 = 141" "fl (31 / 2) = 31 / 2"
    using is_double_of_int [of 8] is_double_of_int [of 88] is_double_of_int [of 141]
      is_double_dyadic [of 31 1]
    by (simp_all add: is_double_def)
  have "fl (fl (7 / 10)) = fl (7 / 10)"
    using fl_is_double [of "7 / 10"] by (simp add: is_double_def)
  then show "unit_draw (fl (7 / 10))"
    by (simp add: unit_draw_def is_double_def) (simp add: double_seven_tenths(1))
  show "analysisScore (fl (7 / 10)) = 88" "newScore (fl (7 / 10)) = 88"
    "Math_floor (fl (fl (3 / 10) * 10)) = 3"
    by (simp_all only: analysisScore_def newScore_def double_seven_tenths Math_floor_def)
      (simp_all add: exact)
  show "review_suggestions (newReview i nm score (fl (7 / 10)) (fl (7 / 10)) now) = 8"
    by (simp only: newReview_def double_seven_tenths Math_floor_def) (simp add: exact)
  show "review_pullRequest (newReview i nm score (fl (7 / 10)) (fl (7 / 10)) now) = ''#141''"
    by (simp only: newReview_def double_seven_tenths Math_floor_def)
      (simp add: exact Number_toString_def toString.simps digit_def)
  show "Math_round (fl (0 + fl (fl (fl (7 / 10) * 15) + 5))) = 16"
    by (simp only: double_seven_tenths) (simp add: exact Math_round_def)
qed

section \<open>Cancelling a run\<close>

text \<open>
  Claim C1 at a concrete run. Repository 1 of the seed data (score 92) is deployed to
  staging; its interval fires once with the draw \<open>1/2\<close> (the closure's progress is 12.5,
  the run shows \<open>build\<close> at 13); the run is cancelled (\<open>failed\<close> at 13); the interval, which
  \<open>cancelDeployment\<close> does not clear, fires again with the draw \<open>1/2\<close>: the run is back in
  stage \<open>test\<close> with progress 25.
\<close>

theorem cancelled_run_resumes:
  "(let s1 = snd (triggerDeployment (initialRepositories 0 ! 0) Staging 1700000000000 (initial 0));
        s2 = tick 0 (1 / 2) s1;
        s3 = cancelDeployment ''1700000000000'' s2;
        s4 = tick 0 (1 / 2) s3
    in pipe_id (hd (pipelines s2)) = ''1700000000000'' \<and>
       pipe_stage (hd (pipelines s2)) = Build \<and> pipe_progress (hd (pipelines s2)) = 13 \<and>
       pipe_stage (hd (pipelines s3)) = Failed \<and> pipe_progress (hd (pipelines s3)) = 13 \<and>
       pipe_stage (hd (pipelines s4)) = Test \<and> pipe_progress (hd (pipelines s4)) = 25)"
proof -
  define s1 where
    "s1 = snd (triggerDeployment (initialRepositories 0 ! 0) Staging 1700000000000 (initial 0))"
  define s2 where "s2 = tick 0 (1 / 2) s1"
  define s3 where "s3 = cancelDeployment ''1700000000000'' s2"
  define s4 where "s4 = tick 0 (1 / 2) s3"
  have gate: "85 \<le> repo_qualityScore (initialRepositories 0 ! 0)"
    by (simp add: initialRepositories_def)
  have i1: "intervals s1
      = [\<lparr>tick_pipeline = ''1700000000000'', tick_repo = ''1'', tick_progress = 0\<rparr>]"
    unfolding s1_def triggerDeployment_accepted(4) [OF gate]
    by (simp add: initial_def initialRepositories_def toString.simps digit_def)
  have p1: "pipelines s1 \<noteq> []" "pipe_id (hd (pipelines s1)) = ''1700000000000''"
    unfolding s1_def triggerDeployment_accepted(2) [OF gate]
    by (simp_all add: newPipeline_def toString.simps digit_def)
  have k1: "0 < length (intervals s1)"
    and h1: "pipe_id (hd (pipelines s1)) = tick_pipeline (intervals s1 ! 0)"
    and c1: "25 / 2 = fl (tick_progress (intervals s1 ! 0) + fl (fl (1 / 2 * 15) + 5))"
    by (simp_all add: i1 p1 exact_values)
  note t2 = tick_head_running [OF k1 p1(1) h1 c1, folded s2_def]
  have i2: "intervals s2
      = [\<lparr>tick_pipeline = ''1700000000000'', tick_repo = ''1'', tick_progress = 25 / 2\<rparr>]"
    using t2(1) by (simp add: i1)
  have p2: "pipelines s2 \<noteq> []" "pipe_id (hd (pipelines s2)) = ''1700000000000''"
    "pipe_stage (hd (pipelines s2)) = Build" "pipe_progress (hd (pipelines s2)) = 13"
    using t2(2-5) by (simp_all add: p1 stages_def Math_round_def)
  note t3 = cancelDeployment_head [OF p2(1,2), folded s3_def]
  have i3: "intervals s3
      = [\<lparr>tick_pipeline = ''1700000000000'', tick_repo = ''1'', tick_progress = 25 / 2\<rparr>]"
    and p3: "pipelines s3 \<noteq> []" "pipe_id (hd (pipelines s3)) = ''1700000000000''"
    "pipe_stage (hd (pipelines s3)) = Failed" "pipe_progress (hd (pipelines s3)) = 13"
    using t3 by (simp_all add: p2 i2)
  have k3: "0 < length (intervals s3)"
    and h3: "pipe_id (hd (pipelines s3)) = tick_pipeline (intervals s3 ! 0)"
    and c3: "25 = fl (tick_progress (intervals s3 ! 0) + fl (fl (1 / 2 * 15) + 5))"
    by (simp_all add: i3 p3 exact_values)
  note t4 = tick_head_running [OF k3 p3(1) h3 c3, folded s4_def]
  have p4: "pipe_stage (hd (pipelines s4)) = Test" "pipe_progress (hd (pipelines s4)) = 25"
    using t4(4,5) by (simp_all add: stages_def Math_round_def)
  show ?thesis
    unfolding Let_def s1_def [symmetric] s2_def [symmetric] s3_def [symmetric] s4_def [symmetric]
    using p2(2-4) p3(3,4) p4 by simp
qed

section \<open>Identifiers: the decimal digits of a clock reading\<close>

lemma toString_nonempty: "toString n \<noteq> []"
  by (subst toString.simps) simp

lemma digit_inj:
  assumes "a < 10" and "b < 10" and "digit a = digit b"
  shows "a = b"
proof -
  have "distinct ''0123456789''" by simp
  moreover have "a < length ''0123456789''" "b < length ''0123456789''"
    using assms(1,2) by simp_all
  ultimately show ?thesis
    using assms(3) unfolding digit_def by (simp only: nth_eq_iff_index_eq)
qed

lemma toString_inj: "toString m = toString n \<Longrightarrow> m = n"
proof (induction m arbitrary: n rule: toString.induct)
  case (1 m)
  show ?case
  proof (cases "m < 10")
    case small_m: True
    show ?thesis
    proof (cases "n < 10")
      case True
      with small_m "1.prems" have "digit m = digit n"
        by (simp add: toString.simps [of m] toString.simps [of n])
      with small_m True show ?thesis by (rule digit_inj)
    next
      case False
      with small_m "1.prems" have "toString (n div 10) = []"
        by (simp add: toString.simps [of m] toString.simps [of n])
      then show ?thesis by (simp add: toString_nonempty)
    qed
  next
    case big_m: False
    show ?thesis
    proof (cases "n < 10")
      case True
      with big_m "1.prems" have "toString (m div 10) = []"
        by (simp add: toString.simps [of m] toString.simps [of n])
      then show ?thesis by (simp add: toString_nonempty)
    next
      case False
      with big_m "1.prems" have eq: "toString (m div 10) = toString (n div 10)"
        and dg: "digit (m mod 10) = digit (n mod 10)"
        by (simp_all add: toString.simps [of m] toString.simps [of n])
      from "1.IH" [OF big_m eq] have "m div 10 = n div 10" .
      moreover have "m mod 10 = n mod 10"
        using dg by (intro digit_inj) simp_all
      ultimately show ?thesis by (metis div_mult_mod_eq)
    qed
  qed
qed

lemma fresh_clockI:
  assumes "\<forall>p \<in> set (pipelines s). \<exists>n. n < now \<and> pipe_id p = toString n"
  shows "fresh_clock now s"
  unfolding fresh_clock_def
proof
  assume "toString now \<in> pipe_id ` set (pipelines s)"
  then obtain p where p: "p \<in> set (pipelines s)" "pipe_id p = toString now" by auto
  with assms obtain n where "n < now" "pipe_id p = toString n" by blast
  with p(2) show False using toString_inj [of n now] by simp
qed

section \<open>Retrying a run\<close>

lemma find_distinct_key:
  assumes "distinct (map f xs)" and "x \<in> set xs"
  shows "List.find (\<lambda>y. f y = f x) xs = Some x"
  using assms
proof (induction xs)
  case Nil
  then show ?case by simp
next
  case (Cons y ys)
  show ?case
  proof (cases "y = x")
    case True
    then show ?thesis by simp
  next
    case False
    with Cons.prems have x: "x \<in> set ys" and "f y \<notin> f ` set ys"
      by simp_all
    then have "f y \<noteq> f x"
      by blast
    moreover have "List.find (\<lambda>y. f y = f x) ys = Some x"
      using Cons.prems(1) x by (intro Cons.IH) simp_all
    ultimately show ?thesis by simp
  qed
qed

text \<open>
  Claim C8, as the code has it. \<open>retryDeployment\<close> looks up the first run of the list with
  the given id and, by its \<open>repositoryId\<close>, the first repository of the registry with that
  id, and calls \<open>triggerDeployment\<close> with that repository and the environment of the run
  found. When no two runs of the list share an id, the run found is the run retried, and
  this holds for every run of the list, whatever its stage: the quality gate applies
  again, so below 85 the retry is rejected and the state is unchanged; from 85 on the
  trigger contract is carried out: a run is prepended with the id
  \<open>Date.now().toString()\<close>, stage \<open>build\<close>, progress 0, the environment and the repository
  id of the run retried, the repository is marked \<open>deploying\<close> and an interval is started;
  the runs that were in the list, the retried one among them, follow the new run
  unmodified. The id is new when the ids of the listed runs are the decimal digits of
  earlier clock readings.
\<close>

theorem retryDeployment_new_run:
  assumes "pipeline \<in> set (pipelines s)"
    and "distinct (map pipe_id (pipelines s))"
    and "List.find (\<lambda>r. repo_id r = pipe_repositoryId pipeline) (repositories s) = Some repo"
  shows "(repo_qualityScore repo < 85 \<longrightarrow>
            retryDeployment (pipe_id pipeline) now s = (Some QualityGate, s)) \<and>
         (85 \<le> repo_qualityScore repo \<longrightarrow>
            retryDeployment (pipe_id pipeline) now s
              = triggerDeployment repo (pipe_environment pipeline) now s \<and>
            fst (retryDeployment (pipe_id pipeline) now s) = None \<and>
            pipelines (snd (retryDeployment (pipe_id pipeline) now s))
              = newPipeline repo (pipe_environment pipeline) now # pipelines s \<and>
            pipe_id (newPipeline repo (pipe_environment pipeline) now) = toString now \<and>
            pipe_stage (newPipeline repo (pipe_environment pipeline) now) = Build \<and>
            pipe_progress (newPipeline repo (pipe_environment pipeline) now) = 0 \<and>
            pipe_environment (newPipeline repo (pipe_environment pipeline) now)
              = pipe_environment pipeline \<and>
            pipe_repositoryId (newPipeline repo (pipe_environment pipeline) now)
              = pipe_repositoryId pipeline \<and>
            repositories (snd (retryDeployment (pipe_id pipeline) now s))
              = repositories (updateRepositoryStatus (pipe_repositoryId pipeline) Deploying s) \<and>
            intervals (snd (retryDeployment (pipe_id pipeline) now s))
              = intervals s @ [\<lparr>tick_pipeline = toString now,
                                 tick_repo = pipe_repositoryId pipeline, tick_progress = 0\<rparr>] \<and>
            ((\<forall>p \<in> set (pipelines s). \<exists>n. n < now \<and> pipe_id p = toString n) \<longrightarrow>
               (\<forall>p \<in> set (pipelines s).
                  pipe_id p \<noteq> pipe_id (newPipeline repo (pipe_environment pipeline) now))))"
proof -
  have found: "List.find (\<lambda>p. pipe_id p = pipe_id pipeline) (pipelines s) = Some pipeline"
    using assms(2,1) by (rule find_distinct_key)
  have owner: "repo_id repo = pipe_repositoryId pipeline"
    using assms(3) by (auto simp add: find_Some_iff)
  have new_id: "\<forall>p \<in> set (pipelines s).
      pipe_id p \<noteq> pipe_id (newPipeline repo (pipe_environment pipeline) now)"
    if "\<forall>p \<in> set (pipelines s). \<exists>n. n < now \<and> pipe_id p = toString n"
    using fresh_clockI [OF that] by (force simp add: fresh_clock_def newPipeline_def)
  have fields: "pipe_id (newPipeline repo (pipe_environment pipeline) now) = toString now"
    "pipe_stage (newPipeline repo (pipe_environment pipeline) now) = Build"
    "pipe_progress (newPipeline repo (pipe_environment pipeline) now) = 0"
    "pipe_environment (newPipeline repo (pipe_environment pipeline) now)
       = pipe_environment pipeline"
    "pipe_repositoryId (newPipeline repo (pipe_environment pipeline) now)
       = pipe_repositoryId pipeline"
    using owner by (simp_all add: newPipeline_def)
  have retry: "retryDeployment (pipe_id pipeline) now s
      = triggerDeployment repo (pipe_environment pipeline) now s"
    using found assms(3) by (simp add: retryDeployment_def)
  have low: "retryDeployment (pipe_id pipeline) now s = (Some QualityGate, s)"
    if "repo_qualityScore repo < 85"
    using that by (simp add: retry triggerDeployment_def)
  have high: "fst (retryDeployment (pipe_id pipeline) now s) = None"
    "pipelines (snd (retryDeployment (pipe_id pipeline) now s))
       = newPipeline repo (pipe_environment pipeline) now # pipelines s"
    "repositories (snd (retryDeployment (pipe_id pipeline) now s))
       = repositories (updateRepositoryStatus (pipe_repositoryId pipeline) Deploying s)"
    "intervals (snd (retryDeployment (pipe_id pipeline) now s))
       = intervals s @ [\<lparr>tick_pipeline = toString now,
                          tick_repo = pipe_repositoryId pipeline, tick_progress = 0\<rparr>]"
    if "85 \<le> repo_qualityScore repo"
    unfolding retry owner [symmetric] by (rule triggerDeployment_accepted [OF that])+
  show ?thesis
    using low high retry fields new_id by (intro conjI impI)
qed

theorem retryDeployment_new_run_witness:
  "(let s = cancelDeployment ''1700000000000''
              (snd (triggerDeployment (initialRepositories 0 ! 0) Staging 1700000000000 (initial 0)))
    in pipe_stage (hd (pipelines s)) = Failed \<and>
       pipe_id (hd (pipelines s)) = ''1700000000000'' \<and>
       hd (pipelines s) \<in> set (pipelines s) \<and>
       distinct (map pipe_id (pipelines s)) \<and>
       length (pipelines s) = 4 \<and>
       tl (pipelines (snd (retryDeployment ''1700000000000'' 1700000005000 s))) = pipelines s \<and>
       pipe_stage (hd (pipelines (snd (retryDeployment ''1700000000000'' 1700000005000 s)))) = Build \<and>
       pipe_environment (hd (pipelines (snd (retryDeployment ''1700000000000'' 1700000005000 s))))
         = pipe_environment (hd (pipelines s)) \<and>
       (\<forall>p \<in> set (pipelines s).
          pipe_id p \<noteq> pipe_id (hd (pipelines (snd (retryDeployment ''1700000000000''
            1700000005000 s))))))"
proof -
  define s where "s = cancelDeployment ''1700000000000''
     (snd (triggerDeployment (initialRepositories 0 ! 0) Staging 1700000000000 (initial 0)))"
  define pipeline where "pipeline = hd (pipelines s)"
  define repo where "repo = hd (repositories s)"
  have ps: "pipelines s = (newPipeline (initialRepositories 0 ! 0) Staging 1700000000000)
       \<lparr>pipe_stage := Failed\<rparr> # initialPipelines"
    by (simp add: s_def cancelDeployment_def triggerDeployment_def updateRepositoryStatus_def
        initial_def initialRepositories_def initialPipelines_def newPipeline_def
        toString.simps digit_def)
  have rs: "repositories s = map (\<lambda>repo. if repo_id repo = ''1''
       then repo\<lparr>repo_status := Deploying\<rparr> else repo) (initialRepositories 0)"
    by (simp add: s_def cancelDeployment_def triggerDeployment_def updateRepositoryStatus_def
        initial_def initialRepositories_def)
  have id: "pipe_id pipeline = ''1700000000000''"
    by (simp add: pipeline_def ps newPipeline_def toString.simps digit_def)
  have mem: "pipeline \<in> set (pipelines s)"
    by (simp add: pipeline_def ps)
  have ids: "distinct (map pipe_id (pipelines s))"
    by (simp add: ps initialPipelines_def newPipeline_def toString.simps digit_def)
  have f2: "List.find (\<lambda>r. repo_id r = pipe_repositoryId pipeline) (repositories s) = Some repo"
    by (simp add: pipeline_def repo_def ps rs newPipeline_def initialRepositories_def)
  have q: "85 \<le> repo_qualityScore repo"
    by (simp add: repo_def rs initialRepositories_def)
  have seeds: "''1'' = toString 1" "''2'' = toString 2" "''3'' = toString 3"
    by (simp_all add: toString.simps digit_def)
  have earlier: "\<forall>p \<in> set (pipelines s). \<exists>n. n < 1700000005000 \<and> pipe_id p = toString n"
  proof
    fix p assume "p \<in> set (pipelines s)"
    then consider "pipe_id p = toString 1700000000000" | "pipe_id p = toString 1"
      | "pipe_id p = toString 2" | "pipe_id p = toString 3"
      unfolding ps initialPipelines_def using seeds by (auto simp add: newPipeline_def)
    then show "\<exists>n. n < 1700000005000 \<and> pipe_id p = toString n"
    proof cases
      case 1
      then have "(1700000000000::nat) < 1700000005000 \<and> pipe_id p = toString 1700000000000"
        by simp
      then show ?thesis by (rule exI)
    next
      case 2
      then have "(1::nat) < 1700000005000 \<and> pipe_id p = toString 1" by simp
      then show ?thesis by (rule exI)
    next
      case 3
      then have "(2::nat) < 1700000005000 \<and> pipe_id p = toString 2" by simp
      then show ?thesis by (rule exI)
    next
      case 4
      then have "(3::nat) < 1700000005000 \<and> pipe_id p = toString 3" by simp
      then show ?thesis by (rule exI)
    qed
  qed
  note fact = retryDeployment_new_run [OF mem ids f2, of 1700000005000, unfolded id,
      THEN conjunct2, THEN mp, OF q]
  have "pipe_stage (hd (pipelines s)) = Failed" "length (pipelines s) = 4"
    by (simp_all add: ps initialPipelines_def)
  moreover have "pipelines (snd (retryDeployment ''1700000000000'' 1700000005000 s))
        = newPipeline repo (pipe_environment pipeline) 1700000005000 # pipelines s"
    and "pipe_stage (newPipeline repo (pipe_environment pipeline) 1700000005000) = Build"
    and "pipe_environment (newPipeline repo (pipe_environment pipeline) 1700000005000)
        = pipe_environment pipeline"
    and "\<forall>p \<in> set (pipelines s).
        pipe_id p \<noteq> pipe_id (newPipeline repo (pipe_environment pipeline) 1700000005000)"
    using fact earlier by blast+
  ultimately show ?thesis
    unfolding s_def [symmetric] Let_def using id mem ids
    by (simp add: pipeline_def [symmetric])
qed

text \<open>
  Claim C8 as stated fails in three ways. At the seed data, run 3 is in stage \<open>failed\<close>,
  its repository (id 3, score 74) is in the registry, and retrying it is rejected by the
  quality gate. After two triggers that read the same clock value, for staging and then
  for production, and a cancel, the two runs share their id and both are \<open>failed\<close>;
  retrying the staging run, the second of the list, creates a run for production, the
  environment of the first run with that id. And a retry that reads the clock value of
  the trigger gives the new run the id of the run retried.
\<close>

theorem retryDeployment_deviations:
  "pipe_id (pipelines (initial 0) ! 2) = ''3'' \<and>
   pipe_stage (pipelines (initial 0) ! 2) = Failed \<and>
   repositories (initial 0) ! 2 \<in> set (repositories (initial 0)) \<and>
   repo_id (repositories (initial 0) ! 2) = pipe_repositoryId (pipelines (initial 0) ! 2) \<and>
   retryDeployment ''3'' 1700000000000 (initial 0) = (Some QualityGate, initial 0) \<and>
   (let s1 = snd (triggerDeployment (initialRepositories 0 ! 0) Staging 1700000000000 (initial 0));
        s2 = snd (triggerDeployment (repositories s1 ! 0) Production 1700000000000 s1);
        s3 = cancelDeployment ''1700000000000'' s2;
        s4 = snd (retryDeployment (pipe_id (pipelines s3 ! 1)) 1700000005000 s3)
    in reachable s3 \<and>
       pipe_id (pipelines s3 ! 1) = ''1700000000000'' \<and>
       pipe_stage (pipelines s3 ! 1) = Failed \<and>
       pipe_environment (pipelines s3 ! 1) = Staging \<and>
       pipe_repositoryId (pipelines s3 ! 1) = repo_id (repositories s3 ! 0) \<and>
       repo_qualityScore (repositories s3 ! 0) = 92 \<and>
       tl (pipelines s4) = pipelines s3 \<and>
       pipe_stage (hd (pipelines s4)) = Build \<and>
       pipe_environment (hd (pipelines s4)) = Production) \<and>
   (let s1 = snd (triggerDeployment (initialRepositories 0 ! 0) Staging 1700000000000 (initial 0));
        s2 = cancelDeployment ''1700000000000'' s1;
        s3 = snd (retryDeployment ''1700000000000'' 1700000000000 s2)
    in reachable s2 \<and>
       distinct (map pipe_id (pipelines s2)) \<and>
       pipe_stage (hd (pipelines s2)) = Failed \<and>
       tl (pipelines s3) = pipelines s2 \<and>
       pipe_stage (hd (pipelines s3)) = Build \<and>
       pipe_id (hd (pipelines s3)) = pipe_id (hd (pipelines s2)))"
proof -
  define N :: nat where "N = 1700000000000"
  define A where "A = newPipeline (initialRepositories 0 ! 0) Staging N"
  define R where "R = map (\<lambda>repo. if repo_id repo = ''1''
       then repo\<lparr>repo_status := Deploying\<rparr> else repo) (initialRepositories 0)"
  define B where "B = newPipeline (R ! 0) Production N"
  define s1 where "s1 = snd (triggerDeployment (initialRepositories 0 ! 0) Staging N (initial 0))"
  define s2 where "s2 = snd (triggerDeployment (repositories s1 ! 0) Production N s1)"
  define s3 where "s3 = cancelDeployment ''1700000000000'' s2"
  define c2 where "c2 = cancelDeployment ''1700000000000'' s1"
  have N: "toString N = ''1700000000000''"
    by (simp add: N_def toString.simps digit_def)
  have seed: "pipe_id (pipelines (initial 0) ! 2) = ''3''"
    "pipe_stage (pipelines (initial 0) ! 2) = Failed"
    "repositories (initial 0) ! 2 \<in> set (repositories (initial 0))"
    "repo_id (repositories (initial 0) ! 2) = pipe_repositoryId (pipelines (initial 0) ! 2)"
    "retryDeployment ''3'' 1700000000000 (initial 0) = (Some QualityGate, initial 0)"
    by (simp_all add: retryDeployment_def triggerDeployment_def initial_def initialPipelines_def
        initialRepositories_def)
  have gate1: "85 \<le> repo_qualityScore (initialRepositories 0 ! 0)"
    by (simp add: initialRepositories_def)
  have p1: "pipelines s1 = A # initialPipelines"
    unfolding s1_def triggerDeployment_accepted(2) [OF gate1] by (simp add: A_def initial_def)
  have r1: "repositories s1 = R"
    unfolding s1_def triggerDeployment_accepted(3) [OF gate1]
    by (simp add: R_def updateRepositoryStatus_def initial_def initialRepositories_def)
  have R0: "repo_id (R ! 0) = ''1''" "repo_qualityScore (R ! 0) = 92"
    by (simp_all add: R_def initialRepositories_def)
  have gate2: "85 \<le> repo_qualityScore (repositories s1 ! 0)"
    by (simp add: r1 R0)
  have p2: "pipelines s2 = B # A # initialPipelines"
    unfolding s2_def triggerDeployment_accepted(2) [OF gate2] by (simp add: p1 r1 B_def)
  have r2: "repositories s2 = R"
    unfolding s2_def triggerDeployment_accepted(3) [OF gate2]
    by (simp add: r1 updateRepositoryStatus_def) (simp add: R_def initialRepositories_def)
  have A: "pipe_id A = ''1700000000000''" "pipe_stage A = Build" "pipe_environment A = Staging"
    "pipe_repositoryId A = ''1''"
    by (simp_all add: A_def newPipeline_def N initialRepositories_def)
  have B: "pipe_id B = ''1700000000000''" "pipe_stage B = Build" "pipe_environment B = Production"
    "pipe_repositoryId B = ''1''"
    by (simp_all add: B_def newPipeline_def N R0)
  have p3: "pipelines s3 = B\<lparr>pipe_stage := Failed\<rparr> # A\<lparr>pipe_stage := Failed\<rparr> # initialPipelines"
    by (simp add: s3_def cancelDeployment_def p2 A B initialPipelines_def)
  have r3: "repositories s3 = R"
    by (simp add: s3_def cancelDeployment_def r2)
  have find3: "List.find (\<lambda>p. pipe_id p = ''1700000000000'') (pipelines s3)
      = Some (B\<lparr>pipe_stage := Failed\<rparr>)"
    by (simp add: p3 B)
  have findR: "List.find (\<lambda>r. repo_id r = ''1'') R = Some (R ! 0)"
    by (simp add: R_def initialRepositories_def)
  have retry3: "retryDeployment (pipe_id (pipelines s3 ! 1)) 1700000005000 s3
      = triggerDeployment (R ! 0) Production 1700000005000 s3"
    by (simp add: retryDeployment_def p3 A B find3 [unfolded p3] r3 findR)
  have gateR: "85 \<le> repo_qualityScore (R ! 0)"
    by (simp add: R0)
  have "initialRepositories 0 ! 0 \<in> set (repositories (initial 0))"
    by (simp add: initial_def initialRepositories_def)
  then have "step (initial 0) s1"
    unfolding s1_def by (rule step.trigger)
  with reachable.start have reach1: "reachable s1"
    by (rule reachable.next_state)
  have "repositories s1 ! 0 \<in> set (repositories s1)"
    by (simp add: r1 R_def initialRepositories_def)
  then have "step s1 s2"
    unfolding s2_def by (rule step.trigger)
  with reach1 have "reachable s2"
    by (rule reachable.next_state)
  moreover have "step s2 s3"
    unfolding s3_def by (rule step.cancel)
  ultimately have reach3: "reachable s3"
    by (rule reachable.next_state)
  have "step s1 c2"
    unfolding c2_def by (rule step.cancel)
  with reach1 have reachc: "reachable c2"
    by (rule reachable.next_state)
  have shared: "reachable s3"
    "pipe_id (pipelines s3 ! 1) = ''1700000000000''"
    "pipe_stage (pipelines s3 ! 1) = Failed"
    "pipe_environment (pipelines s3 ! 1) = Staging"
    "pipe_repositoryId (pipelines s3 ! 1) = repo_id (repositories s3 ! 0)"
    "repo_qualityScore (repositories s3 ! 0) = 92"
    "tl (pipelines (snd (retryDeployment (pipe_id (pipelines s3 ! 1)) 1700000005000 s3)))
       = pipelines s3"
    "pipe_stage (hd (pipelines (snd (retryDeployment (pipe_id (pipelines s3 ! 1))
       1700000005000 s3)))) = Build"
    "pipe_environment (hd (pipelines (snd (retryDeployment (pipe_id (pipelines s3 ! 1))
       1700000005000 s3)))) = Production"
    unfolding retry3 triggerDeployment_accepted(2) [OF gateR]
    using reach3 by (simp_all add: p3 r3 A R0 newPipeline_def)
  have q2: "pipelines c2 = A\<lparr>pipe_stage := Failed\<rparr> # initialPipelines"
    by (simp add: c2_def cancelDeployment_def p1 A initialPipelines_def)
  have rc2: "repositories c2 = R"
    by (simp add: c2_def cancelDeployment_def r1)
  have retry2: "retryDeployment ''1700000000000'' N c2 = triggerDeployment (R ! 0) Staging N c2"
    by (simp add: retryDeployment_def q2 A rc2 findR)
  have same: "reachable c2"
    "distinct (map pipe_id (pipelines c2))"
    "pipe_stage (hd (pipelines c2)) = Failed"
    "tl (pipelines (snd (retryDeployment ''1700000000000'' N c2))) = pipelines c2"
    "pipe_stage (hd (pipelines (snd (retryDeployment ''1700000000000'' N c2)))) = Build"
    "pipe_id (hd (pipelines (snd (retryDeployment ''1700000000000'' N c2))))
       = pipe_id (hd (pipelines c2))"
    unfolding retry2 triggerDeployment_accepted(2) [OF gateR]
    using reachc by (simp_all add: q2 A N newPipeline_def initialPipelines_def)
  show ?thesis
    unfolding Let_def
    using seed shared [unfolded s3_def s2_def s1_def N_def] same [unfolded c2_def s1_def N_def]
    by (intro conjI)
qed

section \<open>The analysis of a repository\<close>

subsection \<open>Floors of scaled draws\<close>

lemma draw_floor:
  assumes "unit_draw r"
  shows "0 \<le> \<lfloor>fl (r * 5)\<rfloor>" and "\<lfloor>fl (r * 5)\<rfloor> < 5"
    and "0 \<le> \<lfloor>fl (r * 10)\<rfloor>" and "\<lfloor>fl (r * 10)\<rfloor> < 10"
    and "0 \<le> \<lfloor>fl (r * 40)\<rfloor>" and "\<lfloor>fl (r * 40)\<rfloor> < 40"
    and "0 \<le> fl (r * 200)" and "fl (r * 200) < 200"
proof -
  have "is_double (of_int (5 * 2 ^ 50 - 1) / 2 ^ 50)" "is_double (of_int (10 * 2 ^ 49 - 1) / 2 ^ 49)"
    "is_double (of_int (40 * 2 ^ 47 - 1) / 2 ^ 47)" "is_double (of_int (200 * 2 ^ 45 - 1) / 2 ^ 45)"
    by (rule is_double_dyadic, simp, simp)+
  then have d: "is_double (5 - 1 / 2 ^ 50)" "is_double (10 - 1 / 2 ^ 49)"
    "is_double (40 - 1 / 2 ^ 47)" "is_double (200 - 1 / 2 ^ 45)"
    by simp_all
  have 5: "0 \<le> fl (r * 5)" "fl (r * 5) < 5"
    using fl_scaled_draw [OF assms, of 5 "1 / 2 ^ 50"] d(1) by simp_all
  have 10: "0 \<le> fl (r * 10)" "fl (r * 10) < 10"
    using fl_scaled_draw [OF assms, of 10 "1 / 2 ^ 49"] d(2) by simp_all
  have 40: "0 \<le> fl (r * 40)" "fl (r * 40) < 40"
    using fl_scaled_draw [OF assms, of 40 "1 / 2 ^ 47"] d(3) by simp_all
  show "0 \<le> fl (r * 200)" and "fl (r * 200) < 200"
    using fl_scaled_draw [OF assms, of 200 "1 / 2 ^ 45"] d(4) by simp_all
  show "0 \<le> \<lfloor>fl (r * 5)\<rfloor>" and "\<lfloor>fl (r * 5)\<rfloor> < 5"
    and "0 \<le> \<lfloor>fl (r * 10)\<rfloor>" and "\<lfloor>fl (r * 10)\<rfloor> < 10"
    and "0 \<le> \<lfloor>fl (r * 40)\<rfloor>" and "\<lfloor>fl (r * 40)\<rfloor> < 40"
    using 5 10 40 by (simp_all add: floor_less_iff)
qed

lemma fl_small_int:
  assumes "\<bar>n\<bar> \<le> 1000" and "\<bar>m\<bar> \<le> 1000"
  shows "fl (of_int n + of_int m) = of_int n + of_int m"
proof -
  have "is_double (of_int (n + m))"
    using assms by (intro is_double_of_int) simp
  then show ?thesis
    by (simp add: is_double_def)
qed

subsection \<open>The score and its status\<close>

lemma analysisScore_formula:
  assumes "unit_draw r"
  shows "analysisScore r = of_int \<lfloor>fl (r * 40)\<rfloor> + 60"
  using draw_floor(5,6) [OF assms] fl_small_int [of "\<lfloor>fl (r * 40)\<rfloor>" 60]
  by (simp add: analysisScore_def Math_floor_def)

lemma analysisScore_range:
  assumes "unit_draw r"
  shows "analysisScore r \<in> \<int>" and "60 \<le> analysisScore r" and "analysisScore r < 100"
  using draw_floor(5,6) [OF assms] by (simp_all add: analysisScore_formula [OF assms])

lemma analysisScore_floor:
  assumes "unit_draw r"
  shows "analysisScore r = of_int k \<longleftrightarrow> \<lfloor>fl (r * 40)\<rfloor> = k - 60"
proof -
  have "analysisScore r = of_int k \<longleftrightarrow> (of_int (\<lfloor>fl (r * 40)\<rfloor> + 60) :: real) = of_int k"
    by (simp add: analysisScore_formula [OF assms])
  also have "\<dots> \<longleftrightarrow> \<lfloor>fl (r * 40)\<rfloor> + 60 = k"
    by (rule of_int_eq_iff)
  finally show ?thesis
    by linarith
qed

lemma is_double_below_int:
  assumes "0 \<le> m" and "m \<le> 40"
  shows "is_double (of_int m - 1 / 2 ^ 47)"
proof -
  have "is_double (of_int (m * 2 ^ 47 - 1) / 2 ^ 47)"
    using assms by (intro is_double_dyadic) simp_all
  then show ?thesis
    by (simp add: diff_divide_distrib)
qed

lemma analysisScore_draws:
  assumes r: "unit_draw r"
    and lo: "(of_int k - 60) / 40 \<le> r" and hi: "r \<le> (of_int k - 59) / 40 - 1 / 2 ^ 52"
  shows "analysisScore r = of_int k"
proof -
  have r01: "0 \<le> r" "r < 1"
    using r by (simp_all add: unit_draw_def)
  have "(of_int k :: real) < 100"
    using lo r01(2) by simp
  then have k1: "k < 100"
    by simp
  have "59 < (of_int k :: real)"
    using hi r01(1) by (simp add: field_simps)
  then have k0: "60 \<le> k"
    by simp
  have "is_double (of_int (k - 60))"
    using k0 k1 by (intro is_double_of_int) simp
  moreover have "of_int (k - 60) \<le> r * 40"
    using lo by simp
  ultimately have a: "of_int (k - 60) \<le> fl (r * 40)"
    by (rule fl_ge)
  have "is_double (of_int (k - 59) - 1 / 2 ^ 47)"
    using k0 k1 by (intro is_double_below_int) simp_all
  moreover have "r * 40 \<le> of_int (k - 59) - 1 / 2 ^ 47"
    using hi by (simp add: field_simps)
  ultimately have "fl (r * 40) \<le> of_int (k - 59) - 1 / 2 ^ 47"
    by (rule fl_le)
  then have b: "fl (r * 40) < of_int (k - 60) + 1"
    by simp
  from a b have "\<lfloor>fl (r * 40)\<rfloor> = k - 60"
    by (simp only: floor_eq_iff)
  then show ?thesis
    by (simp only: analysisScore_floor [OF r])
qed

lemma analysisScore_preimage:
  assumes r: "unit_draw r" and k: "analysisScore r = of_int k"
  shows "(of_int k - 60) / 40 - 1 / 2 ^ 52 \<le> r" and "r < (of_int k - 59) / 40"
proof -
  have f: "\<lfloor>fl (r * 40)\<rfloor> = k - 60"
    using k by (simp only: analysisScore_floor [OF r])
  then have b: "of_int (k - 60) \<le> fl (r * 40)" "fl (r * 40) < of_int (k - 60) + 1"
    by (simp_all only: floor_eq_iff)
  have k01: "0 \<le> k - 60" "k - 60 < 40"
    using draw_floor(5,6) [OF r] f by simp_all
  have "\<not> r * 40 \<le> of_int (k - 60) - 1 / 2 ^ 47"
  proof
    assume "r * 40 \<le> of_int (k - 60) - 1 / 2 ^ 47"
    moreover have "is_double (of_int (k - 60) - 1 / 2 ^ 47)"
      using k01 by (intro is_double_below_int) simp_all
    ultimately have "fl (r * 40) \<le> of_int (k - 60) - 1 / 2 ^ 47"
      by (intro fl_le)
    with b(1) show False
      by simp
  qed
  then show "(of_int k - 60) / 40 - 1 / 2 ^ 52 \<le> r"
    by (simp add: field_simps)
  have "\<not> of_int (k - 59) \<le> r * 40"
  proof
    assume "of_int (k - 59) \<le> r * 40"
    moreover have "is_double (of_int (k - 59))"
      using k01 by (intro is_double_of_int) simp
    ultimately have "of_int (k - 59) \<le> fl (r * 40)"
      by (intro fl_ge)
    with b(2) show False
      by simp
  qed
  then show "r < (of_int k - 59) / 40"
    by (simp add: field_simps)
qed

lemma analysisStatus_bands:
  "(analysisStatus x = Approved \<longleftrightarrow> 85 \<le> x) \<and>
   (analysisStatus x = Reviewing \<longleftrightarrow> 70 \<le> x \<and> x < 85) \<and>
   (analysisStatus x = Rejected \<longleftrightarrow> x < 70)"
  by (simp add: analysisStatus_def)

lemma newScore_newStatus: "newScore r = analysisScore r" "newStatus x = analysisStatus x"
  by (simp_all add: newScore_def analysisScore_def newStatus_def analysisStatus_def)

subsection \<open>The registry after a connect and after the callbacks\<close>

lemma nth_map_enumerate_if:
  assumes "k < length xs"
  shows "map (\<lambda>(j, x). if P x then f j x else x) (enumerate n xs) ! k
           = (if P (xs ! k) then f (n + k) (xs ! k) else xs ! k)"
  using assms by (simp add: nth_enumerate_eq)

lemma analysisCallback_nth:
  "length (repositories (analysisCallback i nm r prs l g now s)) = length (repositories s)"
  "k < length (repositories s) \<Longrightarrow>
   repositories (analysisCallback i nm r prs l g now s) ! k
     = (if repo_id (repositories s ! k) = i
        then (repositories s ! k)\<lparr>repo_qualityScore := analysisScore r,
               repo_status := analysisStatus (analysisScore r),
               repo_pullRequests := fl (Math_floor (fl (prs k * 5)) + 1),
               repo_isAnalyzing := Some False\<rparr>
        else repositories s ! k)"
proof -
  have eq: "repositories (analysisCallback i nm r prs l g now s)
      = map (\<lambda>(k, repo). if repo_id repo = i
               then repo\<lparr>repo_qualityScore := analysisScore r,
                         repo_status := analysisStatus (analysisScore r),
                         repo_pullRequests := fl (Math_floor (fl (prs k * 5)) + 1),
                         repo_isAnalyzing := Some False\<rparr>
               else repo) (enumerate 0 (repositories s))"
    by (simp add: analysisCallback_def)
  show "length (repositories (analysisCallback i nm r prs l g now s)) = length (repositories s)"
    by (simp add: eq)
  show "repositories (analysisCallback i nm r prs l g now s) ! k
     = (if repo_id (repositories s ! k) = i
        then (repositories s ! k)\<lparr>repo_qualityScore := analysisScore r,
               repo_status := analysisStatus (analysisScore r),
               repo_pullRequests := fl (Math_floor (fl (prs k * 5)) + 1),
               repo_isAnalyzing := Some False\<rparr>
        else repositories s ! k)" if "k < length (repositories s)"
    unfolding eq
    using nth_map_enumerate_if [OF that, of "\<lambda>repo. repo_id repo = i"
        "\<lambda>k repo. repo\<lparr>repo_qualityScore := analysisScore r,
                         repo_status := analysisStatus (analysisScore r),
                         repo_pullRequests := fl (Math_floor (fl (prs k * 5)) + 1),
                         repo_isAnalyzing := Some False\<rparr>" 0]
    by simp
qed

lemma updateRepositoryStatus_nth:
  "length (repositories (updateRepositoryStatus i st s)) = length (repositories s)"
  "k < length (repositories s) \<Longrightarrow>
   repositories (updateRepositoryStatus i st s) ! k
     = (if repo_id (repositories s ! k) = i then (repositories s ! k)\<lparr>repo_status := st\<rparr>
        else repositories s ! k)"
  by (simp_all add: updateRepositoryStatus_def)

lemma manualReview_frame:
  "reviews (manualReviewCallback i r s) = reviews s"
  "pipelines (manualReviewCallback i r s) = pipelines s"
  "timeouts (triggerManualReview i s) = timeouts s @ [ReviewTimeout i]"
  "repositories (triggerManualReview i s) = repositories (updateRepositoryStatus i Reviewing s)"
  by (simp_all add: manualReviewCallback_def triggerManualReview_def updateRepositoryStatus_def)

lemma addRepository_success:
  assumes "fst (addRepository url now created s)"
  shows "repositories (snd (addRepository url now created s))
           = repositories s @ [newRepo (urlParts url ! 0) (urlParts url ! 1) url now created]"
    and "timeouts (snd (addRepository url now created s))
           = timeouts s @ [AnalysisTimeout (toString now) (urlParts url ! 1)]"
    and "reviews (snd (addRepository url now created s)) = reviews s"
    and "pipelines (snd (addRepository url now created s)) = pipelines s"
    and "intervals (snd (addRepository url now created s)) = intervals s"
  using assms
  by (simp_all add: addRepository_def addRepository_try_def Let_def split: if_splits)

lemma analysisCallback_last:
  assumes "repositories s \<noteq> []" and "repo_id (last (repositories s)) = i"
  shows "last (repositories (analysisCallback i nm r prs l g now s))
           = (last (repositories s))\<lparr>repo_qualityScore := analysisScore r,
                 repo_status := analysisStatus (analysisScore r),
                 repo_pullRequests :=
                   fl (Math_floor (fl (prs (length (repositories s) - 1) * 5)) + 1),
                 repo_isAnalyzing := Some False\<rparr>"
proof -
  obtain xs x where xs: "repositories s = xs @ [x]"
    using assms(1) by (metis append_butlast_last_id)
  show ?thesis
    using assms(2) by (simp add: analysisCallback_def xs enumerate_append_eq)
qed

lemma connect_example:
  "fst (addRepository ''https://github.com/acme/widget'' 1700000000000 1700000000001 (initial 0))"
  "urlParts ''https://github.com/acme/widget'' = [''acme'', ''widget'']"
  by (simp_all add: addRepository_def addRepository_try_def Let_def urlParts_def initial_def
      initialRepositories_def)

lemma score_examples:
  "analysisScore (1 / 2) = 80" "analysisScore (7 / 8) = 95"
  "analysisStatus 80 = Reviewing" "analysisStatus 95 = Approved"
proof -
  have "fl 20 = 20" "fl 35 = 35" "fl 80 = 80" "fl 95 = 95"
    using is_double_of_int [of 20] is_double_of_int [of 35] is_double_of_int [of 80]
      is_double_of_int [of 95]
    by (simp_all add: is_double_def)
  then show "analysisScore (1 / 2) = 80" "analysisScore (7 / 8) = 95"
    by (simp_all add: analysisScore_def Math_floor_def)
  show "analysisStatus 80 = Reviewing" "analysisStatus 95 = Approved"
    by (simp_all add: analysisStatus_def)
qed

text \<open>
  Claim C5. For a draw \<open>r\<close> of \<open>Math.random()\<close>, a double in \<open>[0, 1)\<close>, the score of an
  analysis, for a connect and for a manual review alike, is \<open>floor(r * 40) + 60\<close> in the
  arithmetic of doubles (the product is rounded to a double before the floor is taken),
  an integer in \<open>[60, 100)\<close>. The score is \<open>k\<close> for every draw between \<open>(k - 60) / 40\<close> and
  \<open>(k - 59) / 40 - 2^-52\<close>, and only for draws in \<open>[(k - 60) / 40 - 2^-52, (k - 59) / 40)\<close>:
  up to the rounding of the product, each score has an interval of draws of length
  \<open>1/40\<close>, so a uniform draw gives a uniform score. The status is \<open>approved\<close> from 85 on,
  \<open>reviewing\<close> in \<open>[70, 85)\<close> and \<open>rejected\<close> below 70. The analysis callback rewrites the
  registry in place: the repositories with the id it captured get the score, its status
  and \<open>isAnalyzing = false\<close>, the others are untouched. A manual review sets the status of
  the repositories with the given id to \<open>reviewing\<close> and starts a timeout; its callback sets
  their status to the status of the score, and touches nothing else. A successful connect
  appends the repository with \<open>isAnalyzing = true\<close> and status \<open>reviewing\<close> and starts the
  analysis timeout; when its callback runs on that state, the repository has
  \<open>isAnalyzing = false\<close>, the score and its status.
\<close>

theorem analysis_score_and_status:
  assumes "unit_draw r"
  shows "analysisScore r = of_int \<lfloor>fl (r * 40)\<rfloor> + 60 \<and> newScore r = of_int \<lfloor>fl (r * 40)\<rfloor> + 60 \<and>
    analysisScore r \<in> \<int> \<and> 60 \<le> analysisScore r \<and> analysisScore r < 100 \<and>
    (\<forall>k::int.
        ((of_int k - 60) / 40 \<le> r \<and> r \<le> (of_int k - 59) / 40 - 1 / 2 ^ 52 \<longrightarrow>
           analysisScore r = of_int k) \<and>
        (analysisScore r = of_int k \<longrightarrow>
           (of_int k - 60) / 40 - 1 / 2 ^ 52 \<le> r \<and> r < (of_int k - 59) / 40)) \<and>
    (analysisStatus (analysisScore r) = Approved \<longleftrightarrow> 85 \<le> analysisScore r) \<and>
    (analysisStatus (analysisScore r) = Reviewing \<longleftrightarrow>
        70 \<le> analysisScore r \<and> analysisScore r < 85) \<and>
    (analysisStatus (analysisScore r) = Rejected \<longleftrightarrow> analysisScore r < 70) \<and>
    newStatus (newScore r) = analysisStatus (analysisScore r) \<and>
    length (repositories (analysisCallback i nm r prs l g now s)) = length (repositories s) \<and>
    (\<forall>k < length (repositories s).
        repositories (analysisCallback i nm r prs l g now s) ! k
          = (if repo_id (repositories s ! k) = i
             then (repositories s ! k)\<lparr>repo_qualityScore := analysisScore r,
                    repo_status := analysisStatus (analysisScore r),
                    repo_pullRequests := fl (Math_floor (fl (prs k * 5)) + 1),
                    repo_isAnalyzing := Some False\<rparr>
             else repositories s ! k)) \<and>
    length (repositories (triggerManualReview i s)) = length (repositories s) \<and>
    (\<forall>k < length (repositories s).
        repositories (triggerManualReview i s) ! k
          = (if repo_id (repositories s ! k) = i
             then (repositories s ! k)\<lparr>repo_status := Reviewing\<rparr>
             else repositories s ! k)) \<and>
    timeouts (triggerManualReview i s) = timeouts s @ [ReviewTimeout i] \<and>
    length (repositories (manualReviewCallback i r s)) = length (repositories s) \<and>
    (\<forall>k < length (repositories s).
        repositories (manualReviewCallback i r s) ! k
          = (if repo_id (repositories s ! k) = i
             then (repositories s ! k)\<lparr>repo_status := newStatus (newScore r)\<rparr>
             else repositories s ! k)) \<and>
    reviews (manualReviewCallback i r s) = reviews s \<and>
    pipelines (manualReviewCallback i r s) = pipelines s \<and>
    (fst (addRepository url now created s) \<longrightarrow>
       (let s1 = snd (addRepository url now created s);
            s2 = analysisCallback (toString now) (urlParts url ! 1) r prs l g now' s1
        in repo_id (last (repositories s1)) = toString now \<and>
           repo_isAnalyzing (last (repositories s1)) = Some True \<and>
           repo_status (last (repositories s1)) = Reviewing \<and>
           timeouts s1 = timeouts s @ [AnalysisTimeout (toString now) (urlParts url ! 1)] \<and>
           repo_isAnalyzing (last (repositories s2)) = Some False \<and>
           repo_qualityScore (last (repositories s2)) = analysisScore r \<and>
           repo_status (last (repositories s2)) = analysisStatus (analysisScore r)))"
proof -
  have formula: "analysisScore r = of_int \<lfloor>fl (r * 40)\<rfloor> + 60"
    "newScore r = of_int \<lfloor>fl (r * 40)\<rfloor> + 60"
    using analysisScore_formula [OF assms] by (simp_all add: newScore_newStatus)
  have connect: "(let s1 = snd (addRepository url now created s);
            s2 = analysisCallback (toString now) (urlParts url ! 1) r prs l g now' s1
        in repo_id (last (repositories s1)) = toString now \<and>
           repo_isAnalyzing (last (repositories s1)) = Some True \<and>
           repo_status (last (repositories s1)) = Reviewing \<and>
           timeouts s1 = timeouts s @ [AnalysisTimeout (toString now) (urlParts url ! 1)] \<and>
           repo_isAnalyzing (last (repositories s2)) = Some False \<and>
           repo_qualityScore (last (repositories s2)) = analysisScore r \<and>
           repo_status (last (repositories s2)) = analysisStatus (analysisScore r))"
    if ok: "fst (addRepository url now created s)"
  proof -
    define s1 where "s1 = snd (addRepository url now created s)"
    have rs: "repositories s1
        = repositories s @ [newRepo (urlParts url ! 0) (urlParts url ! 1) url now created]"
      and ts: "timeouts s1 = timeouts s @ [AnalysisTimeout (toString now) (urlParts url ! 1)]"
      using addRepository_success(1,2) [OF ok] by (simp_all add: s1_def)
    have ne: "repositories s1 \<noteq> []" and lid: "repo_id (last (repositories s1)) = toString now"
      by (simp_all add: rs newRepo_def)
    show ?thesis
      unfolding Let_def s1_def [symmetric]
      by (simp add: analysisCallback_last [OF ne lid] ts) (simp add: rs newRepo_def)
  qed
  have range: "analysisScore r \<in> \<int>" "60 \<le> analysisScore r" "analysisScore r < 100"
    by (rule analysisScore_range [OF assms])+
  have pre: "\<forall>k::int.
        ((of_int k - 60) / 40 \<le> r \<and> r \<le> (of_int k - 59) / 40 - 1 / 2 ^ 52 \<longrightarrow>
           analysisScore r = of_int k) \<and>
        (analysisScore r = of_int k \<longrightarrow>
           (of_int k - 60) / 40 - 1 / 2 ^ 52 \<le> r \<and> r < (of_int k - 59) / 40)"
    using analysisScore_draws [OF assms] analysisScore_preimage [OF assms] by blast
  have bands: "analysisStatus (analysisScore r) = Approved \<longleftrightarrow> 85 \<le> analysisScore r"
    "analysisStatus (analysisScore r) = Reviewing \<longleftrightarrow>
        70 \<le> analysisScore r \<and> analysisScore r < 85"
    "analysisStatus (analysisScore r) = Rejected \<longleftrightarrow> analysisScore r < 70"
    using analysisStatus_bands [of "analysisScore r"] by simp_all
  have same: "newStatus (newScore r) = analysisStatus (analysisScore r)"
    by (simp add: newScore_newStatus)
  have cb: "length (repositories (analysisCallback i nm r prs l g now s)) = length (repositories s)"
    "\<forall>k < length (repositories s).
        repositories (analysisCallback i nm r prs l g now s) ! k
          = (if repo_id (repositories s ! k) = i
             then (repositories s ! k)\<lparr>repo_qualityScore := analysisScore r,
                    repo_status := analysisStatus (analysisScore r),
                    repo_pullRequests := fl (Math_floor (fl (prs k * 5)) + 1),
                    repo_isAnalyzing := Some False\<rparr>
             else repositories s ! k)"
    using analysisCallback_nth [where i = i and s = s and r = r and prs = prs] by blast+
  have tr: "length (repositories (triggerManualReview i s)) = length (repositories s)"
    "\<forall>k < length (repositories s).
        repositories (triggerManualReview i s) ! k
          = (if repo_id (repositories s ! k) = i
             then (repositories s ! k)\<lparr>repo_status := Reviewing\<rparr>
             else repositories s ! k)"
    "timeouts (triggerManualReview i s) = timeouts s @ [ReviewTimeout i]"
    unfolding manualReview_frame
    using updateRepositoryStatus_nth [where i = i and st = Reviewing and s = s] by blast+
  have mr: "length (repositories (manualReviewCallback i r s)) = length (repositories s)"
    "\<forall>k < length (repositories s).
        repositories (manualReviewCallback i r s) ! k
          = (if repo_id (repositories s ! k) = i
             then (repositories s ! k)\<lparr>repo_status := newStatus (newScore r)\<rparr>
             else repositories s ! k)"
    unfolding manualReviewCallback_def
    using updateRepositoryStatus_nth [where i = i and st = "newStatus (newScore r)" and s = s]
    by blast+
  have fr: "reviews (manualReviewCallback i r s) = reviews s"
    "pipelines (manualReviewCallback i r s) = pipelines s"
    by (rule manualReview_frame)+
  have conn: "fst (addRepository url now created s) \<longrightarrow>
       (let s1 = snd (addRepository url now created s);
            s2 = analysisCallback (toString now) (urlParts url ! 1) r prs l g now' s1
        in repo_id (last (repositories s1)) = toString now \<and>
           repo_isAnalyzing (last (repositories s1)) = Some True \<and>
           repo_status (last (repositories s1)) = Reviewing \<and>
           timeouts s1 = timeouts s @ [AnalysisTimeout (toString now) (urlParts url ! 1)] \<and>
           repo_isAnalyzing (last (repositories s2)) = Some False \<and>
           repo_qualityScore (last (repositories s2)) = analysisScore r \<and>
           repo_status (last (repositories s2)) = analysisStatus (analysisScore r))"
    by (rule impI) (rule connect)
  show ?thesis
    using formula range pre bands same cb tr mr fr conn by (intro conjI)
qed

theorem analysis_score_and_status_witness:
  "unit_draw (1 / 2) \<and> analysisScore (1 / 2) = 80 \<and>
   analysisStatus (analysisScore (1 / 2)) = Reviewing \<and>
   (80 - 60) / 40 \<le> (1 / 2 :: real) \<and> (1 / 2 :: real) \<le> (80 - 59) / 40 - 1 / 2 ^ 52 \<and>
   unit_draw (7 / 8) \<and> (2::nat) < length (repositories (initial 0)) \<and>
   repo_id (repositories (initial 0) ! 2) = ''3'' \<and>
   repo_status (repositories (initial 0) ! 2) = Reviewing \<and>
   repo_status (repositories (manualReviewCallback ''3'' (7 / 8) (initial 0)) ! 2) = Approved \<and>
   fst (addRepository ''https://github.com/acme/widget'' 1700000000000 1700000000001 (initial 0)) \<and>
   (let s1 = snd (addRepository ''https://github.com/acme/widget'' 1700000000000 1700000000001
                    (initial 0));
        s2 = analysisCallback (toString 1700000000000) ''widget'' (1 / 2) (\<lambda>k. 1 / 2) (1 / 2)
               (1 / 2) 1700000003000 s1
    in repo_isAnalyzing (last (repositories s1)) = Some True \<and>
       repo_isAnalyzing (last (repositories s2)) = Some False \<and>
       repo_qualityScore (last (repositories s2)) = 80 \<and>
       repo_status (last (repositories s2)) = Reviewing)"
proof -
  note d = unit_draw_examples(1)
  note fact = analysis_score_and_status [OF d]
  have pre: "(80 - 60) / 40 \<le> (1 / 2 :: real) \<and> (1 / 2 :: real) \<le> (80 - 59) / 40 - 1 / 2 ^ 52"
    by simp
  have "(of_int 80 - 60) / 40 \<le> (1 / 2 :: real) \<and>
      (1 / 2 :: real) \<le> (of_int 80 - 59) / 40 - 1 / 2 ^ 52 \<longrightarrow> analysisScore (1 / 2) = of_int 80"
    by (rule fact [THEN conjunct2, THEN conjunct2, THEN conjunct2, THEN conjunct2,
          THEN conjunct2, THEN conjunct1, THEN spec, THEN conjunct1])
  then have score: "analysisScore (1 / 2) = 80"
    using pre by simp
  have "analysisStatus (analysisScore (1 / 2)) = Reviewing \<longleftrightarrow>
        70 \<le> analysisScore (1 / 2) \<and> analysisScore (1 / 2) < 85"
    by (rule fact [THEN conjunct2, THEN conjunct2, THEN conjunct2,
          THEN conjunct2, THEN conjunct2, THEN conjunct2, THEN conjunct2, THEN conjunct1])
  then have status: "analysisStatus (analysisScore (1 / 2)) = Reviewing"
    by (simp add: score)
  note manual = analysis_score_and_status [OF unit_draw_examples(3),
      where i = "''3''" and s = "initial 0", THEN conjunct2, THEN conjunct2, THEN conjunct2,
      THEN conjunct2, THEN conjunct2, THEN conjunct2, THEN conjunct2, THEN conjunct2,
      THEN conjunct2, THEN conjunct2, THEN conjunct2, THEN conjunct2, THEN conjunct2,
      THEN conjunct2, THEN conjunct2, THEN conjunct2, THEN conjunct1, THEN spec, THEN mp]
  have seed: "(2::nat) < length (repositories (initial 0))"
    "repo_id (repositories (initial 0) ! 2) = ''3''"
    "repo_status (repositories (initial 0) ! 2) = Reviewing"
    by (simp_all add: initial_def initialRepositories_def)
  have reviewed: "repo_status (repositories (manualReviewCallback ''3'' (7 / 8) (initial 0)) ! 2)
      = Approved"
    using manual [OF seed(1)] seed(2) by (simp add: newScore_newStatus score_examples)
  note connected = analysis_score_and_status [OF d, where prs = "\<lambda>k. 1 / 2"
      and l = "1 / 2" and g = "1 / 2" and now' = 1700000003000, THEN conjunct2, THEN conjunct2,
      THEN conjunct2, THEN conjunct2, THEN conjunct2, THEN conjunct2, THEN conjunct2,
      THEN conjunct2, THEN conjunct2, THEN conjunct2, THEN conjunct2, THEN conjunct2,
      THEN conjunct2, THEN conjunct2, THEN conjunct2, THEN conjunct2, THEN conjunct2,
      THEN conjunct2, THEN conjunct2,
      THEN mp, OF connect_example(1), unfolded Let_def connect_example(2)]
  show ?thesis
    unfolding Let_def
    using d score status pre unit_draw_examples(3) seed reviewed connect_example(1) connected
    by simp
qed

section \<open>The review created by the analysis\<close>

lemma map_enumerate_none:
  "\<forall>x \<in> set xs. \<not> P x \<Longrightarrow>
   map (\<lambda>(j, x). if P x then f j x else x) (enumerate n xs) = xs"
  by (induction xs arbitrary: n) simp_all

lemma map_enumerate_unique:
  "length (filter P xs) = 1 \<Longrightarrow>
   \<exists>k < length xs. P (xs ! k) \<and>
     map (\<lambda>(j, x). if P x then f j x else x) (enumerate n xs) = xs[k := f (n + k) (xs ! k)]"
proof (induction xs arbitrary: n)
  case Nil
  then show ?case by simp
next
  case (Cons x xs)
  show ?case
  proof (cases "P x")
    case True
    with Cons.prems have "filter P xs = []" by simp
    then have "\<forall>y \<in> set xs. \<not> P y" by (simp add: filter_empty_conv)
    then have "map (\<lambda>(j, x). if P x then f j x else x) (enumerate (Suc n) xs) = xs"
      by (rule map_enumerate_none)
    with True have "P ((x # xs) ! 0) \<and>
        map (\<lambda>(j, x). if P x then f j x else x) (enumerate n (x # xs))
          = (x # xs)[0 := f (n + 0) ((x # xs) ! 0)]"
      by simp
    then show ?thesis by blast
  next
    case False
    with Cons.prems have "length (filter P xs) = 1" by simp
    from Cons.IH [OF this, of "Suc n"] obtain k where k: "k < length xs" "P (xs ! k)"
      "map (\<lambda>(j, x). if P x then f j x else x) (enumerate (Suc n) xs) = xs[k := f (Suc n + k) (xs ! k)]"
      by blast
    with False have "Suc k < length (x # xs) \<and> P ((x # xs) ! Suc k) \<and>
        map (\<lambda>(j, x). if P x then f j x else x) (enumerate n (x # xs))
          = (x # xs)[Suc k := f (n + Suc k) ((x # xs) ! Suc k)]"
      by simp
    then show ?thesis by blast
  qed
qed

lemma pullRequest_label:
  assumes "unit_draw label"
  shows "\<exists>n::nat. 1 \<le> n \<and> n \<le> 200 \<and>
           ''#'' @ Number_toString (Math_floor (fl (fl (label * 200) + 1))) = CHR ''#'' # toString n"
proof -
  define y where "y = fl (label * 200)"
  define m where "m = \<lfloor>fl (y + 1)\<rfloor>"
  have y: "0 \<le> y" "y < of_int (200 * 2 ^ 45) / 2 ^ 45"
    using draw_floor(7,8) [OF assms] by (simp_all add: y_def)
  have "is_double y"
    unfolding y_def by (rule fl_is_double)
  then have "y \<le> of_int (200 * 2 ^ 45 - 1) / 2 ^ 45"
    using y(2) by (rule double_below) simp_all
  then have "y + 1 \<le> of_int (201 * 2 ^ 45 - 1) / 2 ^ 45"
    by (simp add: field_simps)
  moreover have "is_double (of_int (201 * 2 ^ 45 - 1) / 2 ^ 45)"
    by (rule is_double_dyadic) simp_all
  ultimately have "fl (y + 1) \<le> of_int (201 * 2 ^ 45 - 1) / 2 ^ 45"
    by (intro fl_le)
  then have "fl (y + 1) < 201"
    by (simp add: field_simps)
  moreover have "1 \<le> fl (y + 1)"
    using y(1) is_double_of_int [of 1] by (intro fl_ge) simp_all
  ultimately have m: "1 \<le> m" "m \<le> 200"
    by (simp_all add: m_def le_floor_iff floor_less_iff [symmetric])
  have "Math_floor (fl (fl (label * 200) + 1)) = of_int m"
    by (simp add: Math_floor_def m_def y_def)
  then have "Number_toString (Math_floor (fl (fl (label * 200) + 1))) = toString (nat m)"
    using m by (simp add: Number_toString_def)
  moreover have "1 \<le> nat m" "nat m \<le> 200"
    using m by simp_all
  ultimately show ?thesis
    by auto
qed

lemma suggestions_range:
  assumes "unit_draw sugg"
  shows "fl (Math_floor (fl (sugg * 10)) + 1) = of_int \<lfloor>fl (sugg * 10)\<rfloor> + 1"
    and "1 \<le> fl (Math_floor (fl (sugg * 10)) + 1)"
    and "fl (Math_floor (fl (sugg * 10)) + 1) \<le> 10"
proof -
  show eq: "fl (Math_floor (fl (sugg * 10)) + 1) = of_int \<lfloor>fl (sugg * 10)\<rfloor> + 1"
    using draw_floor(3,4) [OF assms] fl_small_int [of "\<lfloor>fl (sugg * 10)\<rfloor>" 1]
    by (simp add: Math_floor_def)
  show "1 \<le> fl (Math_floor (fl (sugg * 10)) + 1)" and "fl (Math_floor (fl (sugg * 10)) + 1) \<le> 10"
    unfolding eq using draw_floor(3,4) [OF assms] by simp_all
qed

lemma analysisCallback_one_entry:
  assumes "length (filter (\<lambda>repo. repo_id repo = i) (repositories s)) = 1"
  shows "\<exists>k < length (repositories s). repo_id (repositories s ! k) = i \<and>
     repositories (analysisCallback i nm r prs l g now s)
       = (repositories s)[k := (repositories s ! k)\<lparr>repo_qualityScore := analysisScore r,
             repo_status := analysisStatus (analysisScore r),
             repo_pullRequests := fl (Math_floor (fl (prs k * 5)) + 1),
             repo_isAnalyzing := Some False\<rparr>]"
  using map_enumerate_unique [OF assms, of "\<lambda>k repo. repo\<lparr>repo_qualityScore := analysisScore r,
             repo_status := analysisStatus (analysisScore r),
             repo_pullRequests := fl (Math_floor (fl (prs k * 5)) + 1),
             repo_isAnalyzing := Some False\<rparr>" 0]
  by (simp add: analysisCallback_def)

lemma analysisCallback_no_entry:
  assumes "\<forall>repo \<in> set (repositories s). repo_id repo \<noteq> i"
  shows "repositories (analysisCallback i nm r prs l g now s) = repositories s"
  using map_enumerate_none [OF assms, of "\<lambda>k repo. repo\<lparr>repo_qualityScore := analysisScore r,
             repo_status := analysisStatus (analysisScore r),
             repo_pullRequests := fl (Math_floor (fl (prs k * 5)) + 1),
             repo_isAnalyzing := Some False\<rparr>" 0]
  by (simp add: analysisCallback_def)

text \<open>
  Claim C7, as the code has it. When the analysis callback of a connect runs, exactly one
  review is created and put at the head of the review list, the reviews that were there
  following it unchanged. Its author is \<open>ai-analysis\<close>, its status \<open>completed\<close>, its quality
  score the drawn analysis score, its pull-request label \<open>#\<close> followed by the decimal
  digits of an integer in \<open>[1, 200]\<close>, its suggestion count \<open>floor(random * 10) + 1\<close> in the
  arithmetic of doubles, between 1 and 10. The registry is rewritten in place: exactly the
  entries that carry the captured id at that moment get the score, its status, a
  pull-request count and \<open>isAnalyzing = false\<close>, every other entry is untouched. That is
  one entry when exactly one repository has the id (the one the connect appended), and
  none when the repository was removed in the meantime: then the registry is unchanged
  and the review is inserted all the same. Pipelines and timers are untouched.
\<close>

theorem analysisCallback_review:
  assumes "unit_draw label" and "unit_draw sugg"
  shows "(let s' = analysisCallback i nm r prs label sugg now s; v = hd (reviews s') in
     reviews s' = v # reviews s \<and>
     review_author v = ''ai-analysis'' \<and> review_status v = ReviewCompleted \<and>
     review_qualityScore v = analysisScore r \<and>
     review_repositoryId v = i \<and> review_repository v = nm \<and>
     (\<exists>n::nat. 1 \<le> n \<and> n \<le> 200 \<and> review_pullRequest v = CHR ''#'' # toString n) \<and>
     review_suggestions v = of_int \<lfloor>fl (sugg * 10)\<rfloor> + 1 \<and>
     1 \<le> review_suggestions v \<and> review_suggestions v \<le> 10 \<and>
     length (repositories s') = length (repositories s) \<and>
     (\<forall>k < length (repositories s).
        repositories s' ! k
          = (if repo_id (repositories s ! k) = i
             then (repositories s ! k)\<lparr>repo_qualityScore := analysisScore r,
                    repo_status := analysisStatus (analysisScore r),
                    repo_pullRequests := fl (Math_floor (fl (prs k * 5)) + 1),
                    repo_isAnalyzing := Some False\<rparr>
             else repositories s ! k)) \<and>
     (length (filter (\<lambda>repo. repo_id repo = i) (repositories s)) = 1 \<longrightarrow>
        (\<exists>k < length (repositories s). repo_id (repositories s ! k) = i \<and>
           repositories s'
             = (repositories s)[k := (repositories s ! k)\<lparr>repo_qualityScore := analysisScore r,
                   repo_status := analysisStatus (analysisScore r),
                   repo_pullRequests := fl (Math_floor (fl (prs k * 5)) + 1),
                   repo_isAnalyzing := Some False\<rparr>])) \<and>
     ((\<forall>repo \<in> set (repositories s). repo_id repo \<noteq> i) \<longrightarrow> repositories s' = repositories s) \<and>
     pipelines s' = pipelines s \<and> intervals s' = intervals s \<and> timeouts s' = timeouts s)"
proof -
  define s' where "s' = analysisCallback i nm r prs label sugg now s"
  define v where "v = hd (reviews s')"
  have v: "v = newReview i nm (analysisScore r) label sugg now"
    and rv: "reviews s' = v # reviews s"
    by (simp_all add: v_def s'_def analysisCallback_def)
  have fields: "review_author v = ''ai-analysis''" "review_status v = ReviewCompleted"
    "review_qualityScore v = analysisScore r" "review_repositoryId v = i"
    "review_repository v = nm"
    by (simp_all add: v newReview_def)
  have label: "\<exists>n::nat. 1 \<le> n \<and> n \<le> 200 \<and> review_pullRequest v = CHR ''#'' # toString n"
    using pullRequest_label [OF assms(1)] by (simp add: v newReview_def)
  have sg: "review_suggestions v = of_int \<lfloor>fl (sugg * 10)\<rfloor> + 1"
    "1 \<le> review_suggestions v" "review_suggestions v \<le> 10"
  proof -
    have eq: "review_suggestions v = fl (Math_floor (fl (sugg * 10)) + 1)"
      by (simp add: v newReview_def)
    show "review_suggestions v = of_int \<lfloor>fl (sugg * 10)\<rfloor> + 1"
      "1 \<le> review_suggestions v" "review_suggestions v \<le> 10"
      unfolding eq by (rule suggestions_range [OF assms(2)])+
  qed
  have reg: "length (repositories s') = length (repositories s)"
    "\<forall>k < length (repositories s).
        repositories s' ! k
          = (if repo_id (repositories s ! k) = i
             then (repositories s ! k)\<lparr>repo_qualityScore := analysisScore r,
                    repo_status := analysisStatus (analysisScore r),
                    repo_pullRequests := fl (Math_floor (fl (prs k * 5)) + 1),
                    repo_isAnalyzing := Some False\<rparr>
             else repositories s ! k)"
    unfolding s'_def
    using analysisCallback_nth [where i = i and s = s and r = r and prs = prs] by blast+
  have one: "length (filter (\<lambda>repo. repo_id repo = i) (repositories s)) = 1 \<longrightarrow>
        (\<exists>k < length (repositories s). repo_id (repositories s ! k) = i \<and>
           repositories s'
             = (repositories s)[k := (repositories s ! k)\<lparr>repo_qualityScore := analysisScore r,
                   repo_status := analysisStatus (analysisScore r),
                   repo_pullRequests := fl (Math_floor (fl (prs k * 5)) + 1),
                   repo_isAnalyzing := Some False\<rparr>])"
    unfolding s'_def by (rule impI) (rule analysisCallback_one_entry)
  have none: "(\<forall>repo \<in> set (repositories s). repo_id repo \<noteq> i) \<longrightarrow> repositories s' = repositories s"
    unfolding s'_def by (rule impI) (rule analysisCallback_no_entry)
  have frame: "pipelines s' = pipelines s" "intervals s' = intervals s" "timeouts s' = timeouts s"
    by (simp_all add: s'_def analysisCallback_def)
  show ?thesis
    unfolding Let_def s'_def [symmetric] v_def [symmetric]
    using rv fields label sg reg one none frame by (intro conjI)
qed

theorem analysisCallback_review_witness:
  "(let s1 = snd (addRepository ''https://github.com/acme/widget'' 1700000000000 1700000000001
                    (initial 0));
        s2 = analysisCallback (toString 1700000000000) ''widget'' (1 / 2) (\<lambda>k. 1 / 2) (1 / 2)
               (1 / 2) 1700000003000 s1
    in unit_draw (1 / 2) \<and>
       length (filter (\<lambda>repo. repo_id repo = toString 1700000000000) (repositories s1)) = 1 \<and>
       length (reviews s2) = 4 \<and>
       review_suggestions (hd (reviews s2)) = 6 \<and>
       (\<exists>k < length (repositories s1). repo_id (repositories s1 ! k) = toString 1700000000000 \<and>
          repositories s2
            = (repositories s1)[k := (repositories s1 ! k)\<lparr>repo_qualityScore := analysisScore (1 / 2),
                  repo_status := analysisStatus (analysisScore (1 / 2)),
                  repo_pullRequests := fl (Math_floor (fl (1 / 2 * 5)) + 1),
                  repo_isAnalyzing := Some False\<rparr>]))"
proof -
  define s1 where "s1 = snd (addRepository ''https://github.com/acme/widget'' 1700000000000
      1700000000001 (initial 0))"
  define s2 where "s2 = analysisCallback (toString 1700000000000) ''widget'' (1 / 2)
      (\<lambda>k. 1 / 2) (1 / 2) (1 / 2) 1700000003000 s1"
  note d = unit_draw_examples(1)
  have rs: "repositories s1 = repositories (initial 0) @
      [newRepo ''acme'' ''widget'' ''https://github.com/acme/widget'' 1700000000000 1700000000001]"
    and vs: "reviews s1 = reviews (initial 0)"
    using addRepository_success(1,3) [OF connect_example(1)]
    by (simp_all add: s1_def connect_example(2))
  have one: "length (filter (\<lambda>repo. repo_id repo = toString 1700000000000) (repositories s1)) = 1"
    by (simp add: rs initial_def initialRepositories_def newRepo_def toString.simps digit_def)
  note fact = analysisCallback_review [OF d d, of "toString 1700000000000" "''widget''" "1 / 2"
      "\<lambda>k. 1 / 2" 1700000003000 s1, unfolded Let_def, folded s2_def]
  have "reviews s2 = hd (reviews s2) # reviews s1"
    by (rule fact [THEN conjunct1])
  then have "length (reviews s2) = Suc (length (reviews s1))"
    by (metis length_Cons)
  then have len: "length (reviews s2) = 4"
    by (simp add: vs initial_def initialReviews_def)
  have "fl 5 = 5"
    using is_double_of_int [of 5] by (simp add: is_double_def)
  moreover have "review_suggestions (hd (reviews s2)) = of_int \<lfloor>fl ((1 / 2 :: real) * 10)\<rfloor> + 1"
    by (rule fact [THEN conjunct2, THEN conjunct2, THEN conjunct2, THEN conjunct2,
          THEN conjunct2, THEN conjunct2, THEN conjunct2, THEN conjunct1])
  ultimately have sg: "review_suggestions (hd (reviews s2)) = 6"
    by simp
  have entry: "\<exists>k < length (repositories s1). repo_id (repositories s1 ! k) = toString 1700000000000 \<and>
          repositories s2
            = (repositories s1)[k := (repositories s1 ! k)\<lparr>repo_qualityScore := analysisScore (1 / 2),
                  repo_status := analysisStatus (analysisScore (1 / 2)),
                  repo_pullRequests := fl (Math_floor (fl (1 / 2 * 5)) + 1),
                  repo_isAnalyzing := Some False\<rparr>]"
    by (rule fact [THEN conjunct2, THEN conjunct2, THEN conjunct2, THEN conjunct2,
          THEN conjunct2, THEN conjunct2, THEN conjunct2, THEN conjunct2, THEN conjunct2,
          THEN conjunct2, THEN conjunct2, THEN conjunct2, THEN conjunct1, THEN mp, OF one])
  show ?thesis
    unfolding Let_def s1_def [symmetric] s2_def [symmetric]
    using d one len sg entry by (intro conjI)
qed

text \<open>
  Claim C7 as stated fails when the repository is removed before its analysis completes.
  A repository is connected, and removed within the three seconds of the analysis; the
  timeout of the analysis is still pending, and its callback runs. It rewrites no
  repository, the registry is the one of the seed data, and still puts a review at the
  head of the list, for an id that no repository has: there is a review insertion
  without a repository mutation.
\<close>

theorem analysis_after_removal:
  "(let s1 = snd (addRepository ''https://github.com/acme/widget'' 1700000000000 1700000000001
                    (initial 0));
        s2 = removeRepository ''1700000000000'' s1;
        s3 = (analysisCallback ''1700000000000'' ''widget'' (1 / 2) (\<lambda>k. 1 / 2) (1 / 2) (1 / 2)
                1700000003000 s2)\<lparr>timeouts := remove_nth 0 (timeouts s2)\<rparr>
    in fst (addRepository ''https://github.com/acme/widget'' 1700000000000 1700000000001
              (initial 0)) \<and>
       repo_id (last (repositories s1)) = ''1700000000000'' \<and>
       timeouts s2 = [AnalysisTimeout ''1700000000000'' ''widget''] \<and>
       reachable s3 \<and>
       repositories s2 = repositories (initial 0) \<and>
       repositories s3 = repositories s2 \<and>
       reviews s3 = hd (reviews s3) # reviews s2 \<and>
       review_author (hd (reviews s3)) = ''ai-analysis'' \<and>
       review_repositoryId (hd (reviews s3)) = ''1700000000000'' \<and>
       filter (\<lambda>repo. repo_id repo = ''1700000000000'') (repositories s3) = [])"
proof -
  define s1 where "s1 = snd (addRepository ''https://github.com/acme/widget'' 1700000000000
      1700000000001 (initial 0))"
  define s2 where "s2 = removeRepository ''1700000000000'' s1"
  define s3 where "s3 = (analysisCallback ''1700000000000'' ''widget'' (1 / 2) (\<lambda>k. 1 / 2)
      (1 / 2) (1 / 2) 1700000003000 s2)\<lparr>timeouts := remove_nth 0 (timeouts s2)\<rparr>"
  have N: "toString 1700000000000 = ''1700000000000''"
    by (simp add: toString.simps digit_def)
  have rs1: "repositories s1 = repositories (initial 0) @
      [newRepo ''acme'' ''widget'' ''https://github.com/acme/widget'' 1700000000000 1700000000001]"
    and ts1: "timeouts s1 = [AnalysisTimeout ''1700000000000'' ''widget'']"
    and vs1: "reviews s1 = reviews (initial 0)"
    using addRepository_success(1,2,3) [OF connect_example(1)]
    by (simp_all add: s1_def connect_example(2) N initial_def)
  have last1: "repo_id (last (repositories s1)) = ''1700000000000''"
    by (simp add: rs1 newRepo_def N)
  have rs2: "repositories s2 = repositories (initial 0)"
    by (simp add: s2_def removeRepository_def rs1 newRepo_def N initial_def
        initialRepositories_def)
  have ts2: "timeouts s2 = [AnalysisTimeout ''1700000000000'' ''widget'']"
    by (simp add: s2_def removeRepository_def ts1)
  have vs2: "reviews s2 = reviews (initial 0)"
    by (simp add: s2_def removeRepository_def vs1 initial_def initialReviews_def)
  have absent: "\<forall>repo \<in> set (repositories s2). repo_id repo \<noteq> ''1700000000000''"
    by (simp add: rs2 initial_def initialRepositories_def)
  have rs3: "repositories s3 = repositories s2"
    by (simp add: s3_def analysisCallback_no_entry [OF absent])
  have vs3: "reviews s3 = hd (reviews s3) # reviews s2"
    "review_author (hd (reviews s3)) = ''ai-analysis''"
    "review_repositoryId (hd (reviews s3)) = ''1700000000000''"
    by (simp_all add: s3_def analysisCallback_def newReview_def)
  have none: "filter (\<lambda>repo. repo_id repo = ''1700000000000'') (repositories s3) = []"
    using absent by (simp add: rs3 filter_empty_conv)
  have "step (initial 0) s1"
    unfolding s1_def by (rule step.connect)
  with reachable.start have "reachable s1"
    by (rule reachable.next_state)
  moreover have "step s1 s2"
    unfolding s2_def by (rule step.remove)
  ultimately have "reachable s2"
    by (rule reachable.next_state)
  moreover have "step s2 s3"
    unfolding s3_def using unit_draw_examples(1) by (intro step.analysis) (simp_all add: ts2)
  ultimately have reach: "reachable s3"
    by (rule reachable.next_state)
  show ?thesis
    unfolding Let_def s1_def [symmetric] s2_def [symmetric] s3_def [symmetric]
    using connect_example(1) last1 ts2 reach rs2 rs3 vs3 none by (intro conjI)
qed

section \<open>Progress of the runs in reachable states\<close>

subsection \<open>Lists: updating and removing one position\<close>

lemma in_set_updateE:
  assumes "t \<in> set (xs[k := y])"
  obtains "t = y" | j where "j < length xs" "j \<noteq> k" "t = xs ! j"
proof -
  from assms obtain j where j: "j < length xs" "t = xs[k := y] ! j"
    by (auto simp add: in_set_conv_nth)
  show thesis
  proof (cases "j = k")
    case True
    with j that(1) show thesis by simp
  next
    case False
    with j that(2) show thesis by simp
  qed
qed

lemma in_set_remove_nthE:
  assumes "t \<in> set (remove_nth k xs)"
  obtains j where "j < length xs" "j \<noteq> k" "t = xs ! j"
proof -
  from assms consider "t \<in> set (take k xs)" | "t \<in> set (drop (Suc k) xs)"
    by (auto simp add: remove_nth_def)
  then show thesis
  proof cases
    case 1
    then obtain j where "j < length (take k xs)" "t = take k xs ! j"
      by (auto simp add: in_set_conv_nth)
    then have "j < length xs" "j \<noteq> k" "t = xs ! j" by simp_all
    then show thesis by (rule that)
  next
    case 2
    then obtain j where j: "j < length (drop (Suc k) xs)" "t = drop (Suc k) xs ! j"
      by (auto simp add: in_set_conv_nth)
    then have "Suc k + j < length xs" "Suc k + j \<noteq> k" "t = xs ! (Suc k + j)" by simp_all
    then show thesis by (rule that)
  qed
qed

lemma distinct_map_remove_nth:
  assumes "distinct (map f xs)"
  shows "distinct (map f (remove_nth k xs))"
proof -
  have "map f (remove_nth k xs) = take k (map f xs) @ drop (Suc k) (map f xs)"
    by (simp add: remove_nth_def take_map drop_map)
  moreover have "distinct (take k (map f xs) @ drop (Suc k) (map f xs))"
    using assms set_take_disj_set_drop_if_distinct [of "map f xs" k "Suc k"]
    by simp
  ultimately show ?thesis by simp
qed

lemma set_remove_nth_subset: "set (remove_nth k xs) \<subseteq> set xs"
  by (auto simp add: remove_nth_def dest: in_set_takeD in_set_dropD)

lemma distinct_map_nth_neq:
  assumes "distinct (map f xs)" and "j < length xs" and "k < length xs" and "j \<noteq> k"
  shows "f (xs ! j) \<noteq> f (xs ! k)"
  using assms nth_eq_iff_index_eq [of "map f xs" j k] by simp

lemma list_all2_map_if:
  assumes "\<And>x. x \<in> set xs \<Longrightarrow> R x x"
    and "\<And>x. x \<in> set xs \<Longrightarrow> P x \<Longrightarrow> R x (f x)"
  shows "list_all2 R xs (map (\<lambda>x. if P x then f x else x) xs)"
  using assms by (simp add: list_all2_map2 list_all2_same)

subsection \<open>Rounding\<close>

lemma Math_round_range:
  assumes "0 \<le> c" and "c \<le> 100"
  shows "Math_round c \<in> \<int>" and "0 \<le> Math_round c" and "Math_round c \<le> 100"
proof -
  show "Math_round c \<in> \<int>" by (simp add: Math_round_def)
  have "0 \<le> \<lfloor>c + 1 / 2\<rfloor>" using assms(1) by simp
  then show "0 \<le> Math_round c" by (simp add: Math_round_def)
  have "c + 1 / 2 < 101" using assms(2) by simp
  then have "\<lfloor>c + 1 / 2\<rfloor> < 101" by (simp add: floor_less_iff)
  then have "\<lfloor>c + 1 / 2\<rfloor> \<le> 100" by simp
  then show "Math_round c \<le> 100" unfolding Math_round_def by linarith
qed

lemma Math_round_mono: "a \<le> b \<Longrightarrow> Math_round a \<le> Math_round b"
  by (simp add: Math_round_def floor_mono)

lemma Math_round_fixed: "Math_round 0 = 0" "Math_round 100 = 100"
  by (simp_all add: Math_round_def)

subsection \<open>What each step does to the runs and the intervals\<close>

lemma cancelDeployment_pipelines:
  "pipelines (cancelDeployment pid s)
     = map (\<lambda>p. if pipe_id p = pid \<and> pipe_stage p \<noteq> Completed \<and> pipe_stage p \<noteq> Failed
                 then p\<lparr>pipe_stage := Failed, pipe_progress := pipe_progress p\<rparr> else p)
         (pipelines s)"
  "intervals (cancelDeployment pid s) = intervals s"
  "repositories (cancelDeployment pid s) = repositories s"
  by (simp_all add: cancelDeployment_def)

lemma cancelDeployment_keys:
  "map pipe_id (pipelines (cancelDeployment pid s)) = map pipe_id (pipelines s)"
  "map pipe_progress (pipelines (cancelDeployment pid s)) = map pipe_progress (pipelines s)"
  unfolding cancelDeployment_pipelines by (rule map_if_key, simp)+

lemma cancelDeployment_member:
  assumes "p' \<in> set (pipelines (cancelDeployment pid s))"
  obtains p where "p \<in> set (pipelines s)" "pipe_id p' = pipe_id p"
    "pipe_progress p' = pipe_progress p"
  using assms unfolding cancelDeployment_pipelines
proof (cases rule: in_set_map_ifE)
  case (1 x)
  then have "x \<in> set (pipelines s)" "pipe_id p' = pipe_id x" "pipe_progress p' = pipe_progress x"
    by simp_all
  then show ?thesis by (rule that)
next
  case 2
  then show ?thesis using that by blast
qed

lemma tick_intervals:
  assumes "k < length (intervals s)"
  shows "intervals (tick k r s)
    = (if fl (tick_progress (intervals s ! k) + fl (fl (r * 15) + 5)) < 100
       then (intervals s)[k := (intervals s ! k)
              \<lparr>tick_progress := fl (tick_progress (intervals s ! k) + fl (fl (r * 15) + 5))\<rparr>]
       else remove_nth k (intervals s))"
proof (cases "fl (tick_progress (intervals s ! k) + fl (fl (r * 15) + 5)) < 100")
  case True
  then show ?thesis
    by (simp add: tick_running [OF assms refl True] tickUpdate_frame)
next
  case False
  then have ge: "100 \<le> fl (tick_progress (intervals s ! k) + fl (fl (r * 15) + 5))" by simp
  show ?thesis
    using False by (simp add: tick_done [OF assms refl ge] tickUpdate_frame)
qed

lemma tick_pipelines:
  assumes "k < length (intervals s)"
  obtains st du where "pipelines (tick k r s)
    = map (\<lambda>p. if pipe_id p = tick_pipeline (intervals s ! k)
                then p\<lparr>pipe_stage := st,
                       pipe_progress :=
                         Math_round (min (fl (tick_progress (intervals s ! k) + fl (fl (r * 15) + 5))) 100),
                       pipe_duration := du\<rparr>
                else p) (pipelines s)"
proof (cases "fl (tick_progress (intervals s ! k) + fl (fl (r * 15) + 5)) < 100")
  case True
  then have m: "min (fl (tick_progress (intervals s ! k) + fl (fl (r * 15) + 5))) 100
      = fl (tick_progress (intervals s ! k) + fl (fl (r * 15) + 5))"
    by simp
  have "pipelines (tick k r s)
    = map (\<lambda>p. if pipe_id p = tick_pipeline (intervals s ! k)
                then p\<lparr>pipe_stage :=
                         stages ! nat \<lfloor>fl (fl (fl (tick_progress (intervals s ! k) +
                           fl (fl (r * 15) + 5)) / 100) * 4)\<rfloor>,
                       pipe_progress :=
                         Math_round (min (fl (tick_progress (intervals s ! k) + fl (fl (r * 15) + 5))) 100),
                       pipe_duration := duration (fl (tick_progress (intervals s ! k) + fl (fl (r * 15) + 5)))\<rparr>
                else p) (pipelines s)"
    unfolding m tick_running [OF assms refl True] tickUpdate_pipelines by simp
  then show ?thesis by (rule that)
next
  case False
  then have ge: "100 \<le> fl (tick_progress (intervals s ! k) + fl (fl (r * 15) + 5))" by simp
  then have m: "min (fl (tick_progress (intervals s ! k) + fl (fl (r * 15) + 5))) 100 = 100"
    by simp
  have "pipelines (tick k r s)
    = map (\<lambda>p. if pipe_id p = tick_pipeline (intervals s ! k)
                then p\<lparr>pipe_stage := stages ! 4,
                       pipe_progress :=
                         Math_round (min (fl (tick_progress (intervals s ! k) + fl (fl (r * 15) + 5))) 100),
                       pipe_duration := duration 100\<rparr>
                else p) (pipelines s)"
    unfolding m tick_done [OF assms refl ge] tickUpdate_pipelines
    by (simp add: updateRepositoryStatus_def)
  then show ?thesis by (rule that)
qed

lemma tick_members:
  assumes k: "k < length (intervals s)" and p: "p \<in> set (pipelines (tick k r s))"
  shows "pipe_id p = tick_pipeline (intervals s ! k) \<longrightarrow>
           pipe_progress p
             = Math_round (min (fl (tick_progress (intervals s ! k) + fl (fl (r * 15) + 5))) 100)"
    and "pipe_id p \<noteq> tick_pipeline (intervals s ! k) \<longrightarrow> p \<in> set (pipelines s)"
proof -
  obtain st du where ps: "pipelines (tick k r s)
    = map (\<lambda>p. if pipe_id p = tick_pipeline (intervals s ! k)
                then p\<lparr>pipe_stage := st,
                       pipe_progress :=
                         Math_round (min (fl (tick_progress (intervals s ! k) + fl (fl (r * 15) + 5))) 100),
                       pipe_duration := du\<rparr>
                else p) (pipelines s)"
    using tick_pipelines [OF k, of r] by blast
  from p have "(pipe_id p = tick_pipeline (intervals s ! k) \<and> pipe_progress p
             = Math_round (min (fl (tick_progress (intervals s ! k) + fl (fl (r * 15) + 5))) 100)) \<or>
      (pipe_id p \<noteq> tick_pipeline (intervals s ! k) \<and> p \<in> set (pipelines s))"
    unfolding ps
  proof (cases rule: in_set_map_ifE)
    case (1 x)
    then show ?thesis by simp
  next
    case 2
    then show ?thesis by simp
  qed
  then show "pipe_id p = tick_pipeline (intervals s ! k) \<longrightarrow>
           pipe_progress p
             = Math_round (min (fl (tick_progress (intervals s ! k) + fl (fl (r * 15) + 5))) 100)"
    and "pipe_id p \<noteq> tick_pipeline (intervals s ! k) \<longrightarrow> p \<in> set (pipelines s)"
    by blast+
qed

lemma registry_steps_frame:
  "pipelines (snd (addRepository repoUrl now created s)) = pipelines s"
  "intervals (snd (addRepository repoUrl now created s)) = intervals s"
  "pipelines (analysisCallback i nm r prs l g now s) = pipelines s"
  "intervals (analysisCallback i nm r prs l g now s) = intervals s"
  "pipelines (removeRepository repoId s) = pipelines s"
  "intervals (removeRepository repoId s) = intervals s"
  "pipelines (triggerManualReview repoId s) = pipelines s"
  "intervals (triggerManualReview repoId s) = intervals s"
  "pipelines (manualReviewCallback repoId r s) = pipelines s"
  "intervals (manualReviewCallback repoId r s) = intervals s"
  "pipelines (refreshRepositories s) = pipelines s"
  "intervals (refreshRepositories s) = intervals s"
  "pipelines (refreshCallback a b s) = pipelines s"
  "intervals (refreshCallback a b s) = intervals s"
  by (simp_all add: addRepository_def addRepository_try_def Let_def analysisCallback_def
      removeRepository_def triggerManualReview_def manualReviewCallback_def
      updateRepositoryStatus_def refreshRepositories_def refreshCallback_def)

lemma retryDeployment_cases:
  obtains "retryDeployment pipelineId now s = (None, s)"
  | repo env where "retryDeployment pipelineId now s = triggerDeployment repo env now s"
proof (cases "List.find (\<lambda>p. pipe_id p = pipelineId) (pipelines s)")
  case None
  then show ?thesis using that(1) by (simp add: retryDeployment_def)
next
  case (Some pipeline)
  show ?thesis
  proof (cases "List.find (\<lambda>r. repo_id r = pipe_repositoryId pipeline) (repositories s)")
    case None
    with Some show ?thesis using that(1) by (simp add: retryDeployment_def)
  next
    case (Some repo)
    with \<open>List.find (\<lambda>p. pipe_id p = pipelineId) (pipelines s) = Some pipeline\<close>
    show ?thesis using that(2) by (simp add: retryDeployment_def)
  qed
qed

lemma step_pipelines:
  assumes "step s s'"
  obtains (same) "pipelines s' = pipelines s" "intervals s' = intervals s"
  | (triggered) repo env now where "s' = snd (triggerDeployment repo env now s)"
  | (ticked) k r where "k < length (intervals s)" "unit_draw r" "s' = tick k r s"
  | (cancelled) pid where "s' = cancelDeployment pid s"
  using assms
proof (cases rule: step.cases)
  case (retry pipelineId now)
  show ?thesis
  proof (cases rule: retryDeployment_cases [of pipelineId now s])
    case 1
    with retry same show ?thesis by simp
  next
    case (2 repo env)
    with retry triggered show ?thesis by simp
  qed
qed (simp_all add: registry_steps_frame)

subsection \<open>The invariant\<close>

lemma consistent_initial: "consistent (initial t)"
  by (simp add: consistent_def initial_def initialPipelines_def)

lemma consistent_frame:
  assumes "consistent s" and "pipelines s' = pipelines s" and "intervals s' = intervals s"
  shows "consistent s'"
  using assms by (simp add: consistent_def)

lemma consistent_trigger:
  assumes "consistent s" and "fresh_clock now s"
  shows "consistent (snd (triggerDeployment repo env now s))"
proof (cases "repo_qualityScore repo < 85")
  case True
  then show ?thesis using assms(1) by (simp add: triggerDeployment_def)
next
  case False
  then have gate: "85 \<le> repo_qualityScore repo" by simp
  define new where "new = newPipeline repo env now"
  define tnew where
    "tnew = \<lparr>tick_pipeline = toString now, tick_repo = repo_id repo, tick_progress = 0\<rparr>"
  define s' where "s' = snd (triggerDeployment repo env now s)"
  have ps: "pipelines s' = new # pipelines s" and iv: "intervals s' = intervals s @ [tnew]"
    using triggerDeployment_accepted(2,4) [OF gate] by (simp_all add: s'_def new_def tnew_def)
  have new: "pipe_id new = toString now" "pipe_progress new = 0"
    by (simp_all add: new_def newPipeline_def)
  have tnew: "tick_pipeline tnew = toString now" "tick_progress tnew = 0"
    by (simp_all add: tnew_def)
  have fresh: "toString now \<notin> set (map pipe_id (pipelines s))"
    using assms(2) by (simp add: fresh_clock_def)
  from assms(1) have inv:
    "distinct (map tick_pipeline (intervals s))"
    "set (map tick_pipeline (intervals s)) \<subseteq> set (map pipe_id (pipelines s))"
    "\<forall>t \<in> set (intervals s).
        is_double (tick_progress t) \<and> 0 \<le> tick_progress t \<and> tick_progress t < 100"
    "\<forall>p \<in> set (pipelines s).
        pipe_progress p \<in> \<int> \<and> 0 \<le> pipe_progress p \<and> pipe_progress p \<le> 100"
    "\<forall>t \<in> set (intervals s). \<forall>p \<in> set (pipelines s).
        pipe_id p = tick_pipeline t \<longrightarrow> pipe_progress p = Math_round (tick_progress t)"
    by (simp_all add: consistent_def)
  have fresh_iv: "toString now \<notin> set (map tick_pipeline (intervals s))"
    using fresh inv(2) by blast
  have a: "distinct (map tick_pipeline (intervals s'))"
    using inv(1) fresh_iv by (simp add: iv tnew)
  have b: "set (map tick_pipeline (intervals s')) \<subseteq> set (map pipe_id (pipelines s'))"
    using inv(2) by (auto simp add: iv ps tnew new)
  have c: "\<forall>t \<in> set (intervals s').
        is_double (tick_progress t) \<and> 0 \<le> tick_progress t \<and> tick_progress t < 100"
    using inv(3) by (simp add: iv tnew is_double_0)
  have d: "\<forall>p \<in> set (pipelines s').
        pipe_progress p \<in> \<int> \<and> 0 \<le> pipe_progress p \<and> pipe_progress p \<le> 100"
    using inv(4) by (simp add: ps new)
  have e: "pipe_progress p = Math_round (tick_progress t)"
    if "t \<in> set (intervals s')" "p \<in> set (pipelines s')" "pipe_id p = tick_pipeline t" for t p
  proof -
    from that(1) consider "t = tnew" | "t \<in> set (intervals s)" by (auto simp add: iv)
    then show ?thesis
    proof cases
      case 1
      from that(2) consider "p = new" | "p \<in> set (pipelines s)" by (auto simp add: ps)
      then show ?thesis
      proof cases
        case 1
        with \<open>t = tnew\<close> show ?thesis by (simp add: new tnew Math_round_fixed)
      next
        case 2
        with that(3) \<open>t = tnew\<close> fresh show ?thesis by (force simp add: tnew)
      qed
    next
      case 2
      from that(2) consider "p = new" | "p \<in> set (pipelines s)" by (auto simp add: ps)
      then show ?thesis
      proof cases
        case 1
        with that(3) \<open>t \<in> set (intervals s)\<close> fresh_iv show ?thesis by (force simp add: new)
      next
        case 2
        with that(3) \<open>t \<in> set (intervals s)\<close> inv(5) show ?thesis by blast
      qed
    qed
  qed
  show ?thesis
    unfolding s'_def [symmetric] consistent_def using a b c d e by blast
qed

lemma consistent_cancel:
  assumes "consistent s"
  shows "consistent (cancelDeployment pid s)"
proof -
  define s' where "s' = cancelDeployment pid s"
  have iv: "intervals s' = intervals s" and ids: "map pipe_id (pipelines s') = map pipe_id (pipelines s)"
    by (simp_all add: s'_def cancelDeployment_pipelines(2) cancelDeployment_keys)
  have mem: "\<exists>p \<in> set (pipelines s). pipe_id p' = pipe_id p \<and> pipe_progress p' = pipe_progress p"
    if "p' \<in> set (pipelines s')" for p'
    using that unfolding s'_def by (rule cancelDeployment_member) blast
  from assms have inv:
    "distinct (map tick_pipeline (intervals s))"
    "set (map tick_pipeline (intervals s)) \<subseteq> set (map pipe_id (pipelines s))"
    "\<forall>t \<in> set (intervals s).
        is_double (tick_progress t) \<and> 0 \<le> tick_progress t \<and> tick_progress t < 100"
    "\<forall>p \<in> set (pipelines s).
        pipe_progress p \<in> \<int> \<and> 0 \<le> pipe_progress p \<and> pipe_progress p \<le> 100"
    "\<forall>t \<in> set (intervals s). \<forall>p \<in> set (pipelines s).
        pipe_id p = tick_pipeline t \<longrightarrow> pipe_progress p = Math_round (tick_progress t)"
    by (simp_all add: consistent_def)
  have d: "\<forall>p \<in> set (pipelines s').
        pipe_progress p \<in> \<int> \<and> 0 \<le> pipe_progress p \<and> pipe_progress p \<le> 100"
    using inv(4) mem by metis
  have e: "\<forall>t \<in> set (intervals s'). \<forall>p \<in> set (pipelines s').
        pipe_id p = tick_pipeline t \<longrightarrow> pipe_progress p = Math_round (tick_progress t)"
    unfolding iv using inv(5) mem by metis
  show ?thesis
    unfolding s'_def [symmetric] consistent_def iv ids using inv(1,2,3) d e [unfolded iv] by blast
qed

lemma consistent_tick:
  assumes "consistent s" and k: "k < length (intervals s)" and r: "unit_draw r"
  shows "consistent (tick k r s)"
proof -
  define xs where "xs = intervals s"
  define t where "t = xs ! k"
  define c where "c = fl (tick_progress t + fl (fl (r * 15) + 5))"
  define pid where "pid = tick_pipeline t"
  define s' where "s' = tick k r s"
  from assms(1) have inv:
    "distinct (map tick_pipeline xs)"
    "set (map tick_pipeline xs) \<subseteq> set (map pipe_id (pipelines s))"
    "\<forall>t \<in> set xs. is_double (tick_progress t) \<and> 0 \<le> tick_progress t \<and> tick_progress t < 100"
    "\<forall>p \<in> set (pipelines s).
        pipe_progress p \<in> \<int> \<and> 0 \<le> pipe_progress p \<and> pipe_progress p \<le> 100"
    "\<forall>t \<in> set xs. \<forall>p \<in> set (pipelines s).
        pipe_id p = tick_pipeline t \<longrightarrow> pipe_progress p = Math_round (tick_progress t)"
    by (simp_all add: consistent_def xs_def)
  have kx: "k < length xs" using k by (simp add: xs_def)
  then have tin: "t \<in> set xs" by (simp add: t_def)
  have t3: "is_double (tick_progress t)" "0 \<le> tick_progress t" "tick_progress t < 100"
    using inv(3) tin by simp_all
  have "tick_progress t < c"
    unfolding c_def by (rule counter_advance(1) [OF t3 draw_increment(1,2) [OF r]])
  with t3(2) have c0: "0 \<le> c" by simp
  have cd: "is_double c"
    unfolding c_def by (rule fl_is_double)
  obtain st du where ps: "pipelines s'
    = map (\<lambda>p. if pipe_id p = pid
                then p\<lparr>pipe_stage := st, pipe_progress := Math_round (min c 100),
                       pipe_duration := du\<rparr>
                else p) (pipelines s)"
    using tick_pipelines [OF k, of r] unfolding s'_def pid_def c_def t_def xs_def by blast
  have iv: "intervals s' = (if c < 100 then xs[k := t\<lparr>tick_progress := c\<rparr>] else remove_nth k xs)"
    using tick_intervals [OF k, of r] unfolding s'_def c_def t_def xs_def by simp
  have ids: "map pipe_id (pipelines s') = map pipe_id (pipelines s)"
    unfolding ps by (rule map_if_key) simp
  have mem: "(pipe_id p' = pid \<and> pipe_progress p' = Math_round (min c 100)) \<or>
             (p' \<in> set (pipelines s) \<and> pipe_id p' \<noteq> pid)"
    if "p' \<in> set (pipelines s')" for p'
    using that unfolding ps
  proof (cases rule: in_set_map_ifE)
    case (1 x)
    then show ?thesis by simp
  next
    case 2
    then show ?thesis by simp
  qed
  have memt: "(c < 100 \<and> t' = t\<lparr>tick_progress := c\<rparr>) \<or>
              (t' \<in> set xs \<and> tick_pipeline t' \<noteq> pid)"
    if t': "t' \<in> set (intervals s')" for t'
  proof -
    have other: "t' \<in> set xs \<and> tick_pipeline t' \<noteq> pid"
      if j: "j < length xs" "j \<noteq> k" "t' = xs ! j" for j
      using distinct_map_nth_neq [OF inv(1) j(1) kx j(2)] j by (simp add: pid_def t_def)
    show ?thesis
    proof (cases "c < 100")
      case True
      with t' have "t' \<in> set (xs[k := t\<lparr>tick_progress := c\<rparr>])" by (simp add: iv)
      then show ?thesis
      proof (cases rule: in_set_updateE)
        case 1
        with True show ?thesis by simp
      next
        case (2 j)
        then show ?thesis using other by blast
      qed
    next
      case False
      with t' have "t' \<in> set (remove_nth k xs)" by (simp add: iv)
      then show ?thesis
      proof (cases rule: in_set_remove_nthE)
        case (1 j)
        then show ?thesis using other by blast
      qed
    qed
  qed
  have a: "distinct (map tick_pipeline (intervals s'))"
  proof (cases "c < 100")
    case True
    have "map tick_pipeline (xs[k := t\<lparr>tick_progress := c\<rparr>]) = map tick_pipeline xs"
      by (simp add: map_update t_def list_update_same_conv kx)
    with True inv(1) show ?thesis by (simp add: iv)
  next
    case False
    with inv(1) show ?thesis by (simp add: iv distinct_map_remove_nth)
  qed
  have b: "set (map tick_pipeline (intervals s')) \<subseteq> set (map pipe_id (pipelines s'))"
  proof
    fix i assume "i \<in> set (map tick_pipeline (intervals s'))"
    then obtain t' where t': "t' \<in> set (intervals s')" "i = tick_pipeline t'" by auto
    from memt [OF t'(1)] have "i \<in> set (map tick_pipeline xs)"
      using tin t'(2) by (auto simp add: pid_def)
    with inv(2) show "i \<in> set (map pipe_id (pipelines s'))" unfolding ids by blast
  qed
  have cc: "\<forall>t \<in> set (intervals s').
        is_double (tick_progress t) \<and> 0 \<le> tick_progress t \<and> tick_progress t < 100"
  proof
    fix t' assume "t' \<in> set (intervals s')"
    from memt [OF this]
    show "is_double (tick_progress t') \<and> 0 \<le> tick_progress t' \<and> tick_progress t' < 100"
    proof
      assume "c < 100 \<and> t' = t\<lparr>tick_progress := c\<rparr>"
      with c0 cd show ?thesis by simp
    next
      assume "t' \<in> set xs \<and> tick_pipeline t' \<noteq> pid"
      with inv(3) show ?thesis by simp
    qed
  qed
  have round: "Math_round (min c 100) \<in> \<int>" "0 \<le> Math_round (min c 100)"
    "Math_round (min c 100) \<le> 100"
    using Math_round_range [of "min c 100"] c0 by simp_all
  have d: "\<forall>p \<in> set (pipelines s').
        pipe_progress p \<in> \<int> \<and> 0 \<le> pipe_progress p \<and> pipe_progress p \<le> 100"
    using mem inv(4) round by metis
  have e: "pipe_progress p' = Math_round (tick_progress t')"
    if "t' \<in> set (intervals s')" "p' \<in> set (pipelines s')" "pipe_id p' = tick_pipeline t'"
    for t' p'
    using memt [OF that(1)]
  proof
    assume new: "c < 100 \<and> t' = t\<lparr>tick_progress := c\<rparr>"
    then have "pipe_id p' = pid" using that(3) by (simp add: pid_def)
    with mem [OF that(2)] have "pipe_progress p' = Math_round (min c 100)" by blast
    with new show ?thesis by simp
  next
    assume old: "t' \<in> set xs \<and> tick_pipeline t' \<noteq> pid"
    with that(3) have "pipe_id p' \<noteq> pid" by simp
    with mem [OF that(2)] have "p' \<in> set (pipelines s)" by blast
    with old that(3) inv(5) show ?thesis by blast
  qed
  show ?thesis
    unfolding s'_def [symmetric] consistent_def using a b cc d e by blast
qed

lemma step_ids:
  assumes "step s s'"
  obtains new where "map pipe_id (pipelines s') = new @ map pipe_id (pipelines s)"
  using assms
proof (cases rule: step_pipelines)
  case same
  then have "map pipe_id (pipelines s') = [] @ map pipe_id (pipelines s)" by simp
  then show ?thesis by (rule that)
next
  case (triggered repo env now)
  have "map pipe_id (pipelines s')
      = (if repo_qualityScore repo < 85 then [] else [toString now]) @ map pipe_id (pipelines s)"
    unfolding triggered
    by (simp add: triggerDeployment_def updateRepositoryStatus_def newPipeline_def)
  then show ?thesis by (rule that)
next
  case (ticked k r)
  obtain st du where "pipelines s'
    = map (\<lambda>p. if pipe_id p = tick_pipeline (intervals s ! k)
                then p\<lparr>pipe_stage := st,
                       pipe_progress :=
                         Math_round (min (fl (tick_progress (intervals s ! k) + fl (fl (r * 15) + 5))) 100),
                       pipe_duration := du\<rparr>
                else p) (pipelines s)"
    using tick_pipelines [OF ticked(1), of r] unfolding ticked(3) by blast
  then have "map pipe_id (pipelines s') = map pipe_id (pipelines s)"
    by (simp only:) (rule map_if_key, simp)
  then have "map pipe_id (pipelines s') = [] @ map pipe_id (pipelines s)" by simp
  then show ?thesis by (rule that)
next
  case (cancelled pid)
  then have "map pipe_id (pipelines s') = [] @ map pipe_id (pipelines s)"
    by (simp add: cancelDeployment_keys)
  then show ?thesis by (rule that)
qed

lemma step_consistent:
  assumes "consistent s" and "step s s'" and "distinct (map pipe_id (pipelines s'))"
  shows "consistent s'"
  using assms(2)
proof (cases rule: step_pipelines)
  case same
  with assms(1) show ?thesis by (rule consistent_frame)
next
  case (triggered repo env now)
  show ?thesis
  proof (cases "repo_qualityScore repo < 85")
    case True
    with assms(1) triggered show ?thesis by (simp add: triggerDeployment_def)
  next
    case False
    then have "pipelines s' = newPipeline repo env now # pipelines s"
      unfolding triggered by (simp add: triggerDeployment_accepted(2))
    with assms(3) have "fresh_clock now s"
      by (auto simp add: fresh_clock_def newPipeline_def)
    with assms(1) show ?thesis unfolding triggered by (rule consistent_trigger)
  qed
next
  case (ticked k r)
  with assms(1) show ?thesis by (simp add: consistent_tick)
next
  case (cancelled pid)
  with assms(1) show ?thesis by (simp add: consistent_cancel)
qed

lemma reachable_consistent:
  "reachable s \<Longrightarrow> distinct (map pipe_id (pipelines s)) \<Longrightarrow> consistent s"
proof (induction rule: reachable.induct)
  case (start t)
  show ?case by (rule consistent_initial)
next
  case (next_state s s')
  from next_state(2) obtain new
    where "map pipe_id (pipelines s') = new @ map pipe_id (pipelines s)"
    by (rule step_ids)
  with next_state(4) have "distinct (map pipe_id (pipelines s))" by simp
  then have "consistent s" by (rule next_state(3))
  then show ?case using next_state(2,4) by (rule step_consistent)
qed

lemma bounded_initial: "bounded (initial t)"
  by (simp add: bounded_def initial_def initialPipelines_def)

lemma bounded_frame:
  assumes "bounded s" and "pipelines s' = pipelines s" and "intervals s' = intervals s"
  shows "bounded s'"
  using assms by (simp add: bounded_def)

lemma bounded_trigger:
  assumes "bounded s"
  shows "bounded (snd (triggerDeployment repo env now s))"
proof (cases "repo_qualityScore repo < 85")
  case True
  with assms show ?thesis by (simp add: triggerDeployment_def)
next
  case False
  then have gate: "85 \<le> repo_qualityScore repo" by simp
  have "pipe_progress (newPipeline repo env now) = 0"
    by (simp add: newPipeline_def)
  with assms show ?thesis
    unfolding bounded_def triggerDeployment_accepted(2,4) [OF gate] by (simp add: is_double_0)
qed

lemma bounded_cancel:
  assumes "bounded s"
  shows "bounded (cancelDeployment pid s)"
proof -
  have "pipe_progress p' \<in> \<int> \<and> 0 \<le> pipe_progress p' \<and> pipe_progress p' \<le> 100"
    if "p' \<in> set (pipelines (cancelDeployment pid s))" for p'
    using that
  proof (cases rule: cancelDeployment_member)
    case (1 p)
    with assms show ?thesis by (simp add: bounded_def)
  qed
  with assms show ?thesis
    by (simp add: bounded_def cancelDeployment_pipelines(2))
qed

lemma bounded_tick:
  assumes "bounded s" and k: "k < length (intervals s)" and r: "unit_draw r"
  shows "bounded (tick k r s)"
proof -
  define t where "t = intervals s ! k"
  define c where "c = fl (tick_progress t + fl (fl (r * 15) + 5))"
  from assms(1) have inv:
    "\<forall>t \<in> set (intervals s).
        is_double (tick_progress t) \<and> 0 \<le> tick_progress t \<and> tick_progress t < 100"
    "\<forall>p \<in> set (pipelines s).
        pipe_progress p \<in> \<int> \<and> 0 \<le> pipe_progress p \<and> pipe_progress p \<le> 100"
    by (simp_all add: bounded_def)
  have tin: "t \<in> set (intervals s)" using k by (simp add: t_def)
  have t3: "is_double (tick_progress t)" "0 \<le> tick_progress t" "tick_progress t < 100"
    using inv(1) tin by simp_all
  have "tick_progress t < c"
    unfolding c_def by (rule counter_advance(1) [OF t3 draw_increment(1,2) [OF r]])
  with t3(2) have c0: "0 \<le> c" by simp
  have cd: "is_double c"
    unfolding c_def by (rule fl_is_double)
  have iv: "intervals (tick k r s)
      = (if c < 100 then (intervals s)[k := t\<lparr>tick_progress := c\<rparr>]
         else remove_nth k (intervals s))"
    using tick_intervals [OF k, of r] unfolding c_def t_def by simp
  have a: "is_double (tick_progress t') \<and> 0 \<le> tick_progress t' \<and> tick_progress t' < 100"
    if t': "t' \<in> set (intervals (tick k r s))" for t'
  proof (cases "c < 100")
    case True
    with t' have "t' \<in> set ((intervals s)[k := t\<lparr>tick_progress := c\<rparr>])" by (simp add: iv)
    then show ?thesis
    proof (cases rule: in_set_updateE)
      case 1
      with True c0 cd show ?thesis by simp
    next
      case (2 j)
      then have "t' \<in> set (intervals s)" by simp
      with inv(1) show ?thesis by (rule bspec)
    qed
  next
    case False
    with t' have "t' \<in> set (remove_nth k (intervals s))" by (simp add: iv)
    then have "t' \<in> set (intervals s)"
      by (rule subsetD [OF set_remove_nth_subset])
    with inv(1) show ?thesis by (rule bspec)
  qed
  have round: "Math_round (min c 100) \<in> \<int>" "0 \<le> Math_round (min c 100)"
    "Math_round (min c 100) \<le> 100"
    using Math_round_range [of "min c 100"] c0 by simp_all
  have b: "pipe_progress p \<in> \<int> \<and> 0 \<le> pipe_progress p \<and> pipe_progress p \<le> 100"
    if p: "p \<in> set (pipelines (tick k r s))" for p
  proof (cases "pipe_id p = tick_pipeline (intervals s ! k)")
    case True
    with tick_members(1) [OF k p] have "pipe_progress p = Math_round (min c 100)"
      by (simp add: c_def t_def)
    with round show ?thesis by simp
  next
    case False
    with tick_members(2) [OF k p] have "p \<in> set (pipelines s)" by simp
    with inv(2) show ?thesis by (rule bspec)
  qed
  show ?thesis
    unfolding bounded_def
  proof (intro conjI ballI)
    fix t' assume "t' \<in> set (intervals (tick k r s))"
    then show "is_double (tick_progress t')" "0 \<le> tick_progress t'" "tick_progress t' < 100"
      using a by blast+
  next
    fix p assume "p \<in> set (pipelines (tick k r s))"
    then show "pipe_progress p \<in> \<int>" "0 \<le> pipe_progress p" "pipe_progress p \<le> 100"
      using b by blast+
  qed
qed

lemma step_bounded:
  assumes "bounded s" and "step s s'"
  shows "bounded s'"
  using assms(2)
proof (cases rule: step_pipelines)
  case same
  with assms(1) show ?thesis by (rule bounded_frame)
next
  case (triggered repo env now)
  with assms(1) show ?thesis by (simp add: bounded_trigger)
next
  case (ticked k r)
  with assms(1) show ?thesis by (simp add: bounded_tick)
next
  case (cancelled pid)
  with assms(1) show ?thesis by (simp add: bounded_cancel)
qed

lemma reachable_bounded: "reachable s \<Longrightarrow> bounded s"
  by (induction rule: reachable.induct) (simp_all add: bounded_initial step_bounded)

lemma reachable_example:
  "reachable (snd (triggerDeployment (initialRepositories 0 ! 0) Staging 1700000000000 (initial 0)))"
  "step (snd (triggerDeployment (initialRepositories 0 ! 0) Staging 1700000000000 (initial 0)))
     (tick 0 (1 / 2) (snd (triggerDeployment (initialRepositories 0 ! 0) Staging 1700000000000 (initial 0))))"
  "reachable (tick 0 (1 / 2) (snd (triggerDeployment (initialRepositories 0 ! 0) Staging 1700000000000 (initial 0))))"
proof -
  define s0 where
    "s0 = snd (triggerDeployment (initialRepositories 0 ! 0) Staging 1700000000000 (initial 0))"
  have mem: "initialRepositories 0 ! 0 \<in> set (repositories (initial 0))"
    by (simp add: initial_def initialRepositories_def)
  have "step (initial 0) s0"
    unfolding s0_def by (rule step.trigger [OF mem])
  with reachable.start have r: "reachable s0" by (rule reachable.next_state)
  have gate: "85 \<le> repo_qualityScore (initialRepositories 0 ! 0)"
    by (simp add: initialRepositories_def)
  have iv: "0 < length (intervals s0)"
    unfolding s0_def triggerDeployment_accepted(4) [OF gate] by simp
  have st: "step s0 (tick 0 (1 / 2) s0)" by (rule step.ticked [OF iv unit_draw_examples(1)])
  with r have r2: "reachable (tick 0 (1 / 2) s0)" by (rule reachable.next_state)
  from r st r2
  show "reachable (snd (triggerDeployment (initialRepositories 0 ! 0) Staging 1700000000000 (initial 0)))"
    "step (snd (triggerDeployment (initialRepositories 0 ! 0) Staging 1700000000000 (initial 0)))
       (tick 0 (1 / 2) (snd (triggerDeployment (initialRepositories 0 ! 0) Staging 1700000000000 (initial 0))))"
    "reachable (tick 0 (1 / 2) (snd (triggerDeployment (initialRepositories 0 ! 0) Staging 1700000000000 (initial 0))))"
    unfolding s0_def by simp_all
qed
subsection \<open>Progress never decreases\<close>

lemma advance_cancel:
  "list_all2 (\<lambda>p p'. pipe_id p' = pipe_id p \<and> pipe_progress p \<le> pipe_progress p')
     (pipelines s) (pipelines (cancelDeployment pid s))"
  unfolding cancelDeployment_pipelines by (rule list_all2_map_if) simp_all

lemma advance_tick:
  assumes "consistent s" and k: "k < length (intervals s)" and r: "unit_draw r"
  shows "list_all2 (\<lambda>p p'. pipe_id p' = pipe_id p \<and> pipe_progress p \<le> pipe_progress p')
     (pipelines s) (pipelines (tick k r s))"
proof -
  define t where "t = intervals s ! k"
  define c where "c = fl (tick_progress t + fl (fl (r * 15) + 5))"
  have tin: "t \<in> set (intervals s)" using k by (simp add: t_def)
  have range: "is_double (tick_progress t)" "0 \<le> tick_progress t" "tick_progress t < 100"
    and sync: "\<forall>p \<in> set (pipelines s).
        pipe_id p = tick_pipeline t \<longrightarrow> pipe_progress p = Math_round (tick_progress t)"
    using assms(1) tin by (simp_all add: consistent_def)
  have "tick_progress t < c"
    unfolding c_def by (rule counter_advance(1) [OF range draw_increment(1,2) [OF r]])
  with range(3) have "tick_progress t \<le> min c 100"
    by simp
  then have le: "Math_round (tick_progress t) \<le> Math_round (min c 100)"
    by (rule Math_round_mono)
  obtain st du where ps: "pipelines (tick k r s)
    = map (\<lambda>p. if pipe_id p = tick_pipeline t
                then p\<lparr>pipe_stage := st, pipe_progress := Math_round (min c 100),
                       pipe_duration := du\<rparr>
                else p) (pipelines s)"
    using tick_pipelines [OF k, of r] unfolding c_def t_def by blast
  show ?thesis
    unfolding ps using sync le by (intro list_all2_map_if) simp_all
qed

lemma advance_trigger:
  "length (pipelines s) \<le> length (pipelines (snd (triggerDeployment repo env now s))) \<and>
   drop (length (pipelines (snd (triggerDeployment repo env now s))) - length (pipelines s))
     (pipelines (snd (triggerDeployment repo env now s))) = pipelines s"
  by (simp add: triggerDeployment_def updateRepositoryStatus_def)

text \<open>
  Claim C9, as the code has it. From a reachable state in which no two runs share an id,
  one step of the dashboard (a trigger, a tick, a cancel or a retry, or any other user
  action or timer callback) keeps every run of the list: the list after the step is the
  list before it, position by position, behind the run the step may have created, every
  run keeps its id, and the progress it records after the step is not less than before.
  This holds for every run, whatever its stage, and so while the run is not in stage
  \<open>failed\<close>. The ids are \<open>1\<close>, \<open>2\<close>, \<open>3\<close> for the seeds and \<open>Date.now().toString()\<close>
  for the run of a trigger: no two runs share an id when the triggers read clock values
  that differ from each other and from 1, 2 and 3.
\<close>

theorem progress_monotone:
  assumes "reachable s" and "distinct (map pipe_id (pipelines s))" and "step s s'"
  shows "length (pipelines s) \<le> length (pipelines s') \<and>
    list_all2 (\<lambda>p p'. pipe_id p' = pipe_id p \<and> pipe_progress p \<le> pipe_progress p')
      (pipelines s) (drop (length (pipelines s') - length (pipelines s)) (pipelines s'))"
proof -
  have inv: "consistent s" using assms(1,2) by (rule reachable_consistent)
  have same: "list_all2 (\<lambda>p p'. pipe_id p' = pipe_id p \<and> pipe_progress p \<le> pipe_progress p')
      (pipelines s) (pipelines s)"
    by (simp add: list_all2_same)
  from assms(3) show ?thesis
  proof (cases rule: step_pipelines)
    case same
    then show ?thesis by (simp add: list_all2_same)
  next
    case (triggered repo env now)
    show ?thesis
      unfolding triggered using advance_trigger [of s repo env now] same by simp
  next
    case (ticked k r)
    have "list_all2 (\<lambda>p p'. pipe_id p' = pipe_id p \<and> pipe_progress p \<le> pipe_progress p')
       (pipelines s) (pipelines s')"
      unfolding ticked(3) using inv ticked(1,2) by (rule advance_tick)
    moreover from this have "length (pipelines s') = length (pipelines s)"
      by (simp add: list_all2_lengthD)
    ultimately show ?thesis by simp
  next
    case (cancelled pid)
    have "list_all2 (\<lambda>p p'. pipe_id p' = pipe_id p \<and> pipe_progress p \<le> pipe_progress p')
       (pipelines s) (pipelines s')"
      unfolding cancelled by (rule advance_cancel)
    moreover from this have "length (pipelines s') = length (pipelines s)"
      by (simp add: list_all2_lengthD)
    ultimately show ?thesis by simp
  qed
qed

theorem progress_monotone_witness:
  "(let s0 = snd (triggerDeployment (initialRepositories 0 ! 0) Staging 1700000000000 (initial 0))
    in reachable s0 \<and> distinct (map pipe_id (pipelines s0)) \<and> step s0 (tick 0 (1 / 2) s0) \<and>
       list_all2 (\<lambda>p p'. pipe_id p' = pipe_id p \<and> pipe_progress p \<le> pipe_progress p')
         (pipelines s0)
         (drop (length (pipelines (tick 0 (1 / 2) s0)) - length (pipelines s0))
            (pipelines (tick 0 (1 / 2) s0))))"
proof -
  have ids: "distinct (map pipe_id (pipelines
      (snd (triggerDeployment (initialRepositories 0 ! 0) Staging 1700000000000 (initial 0)))))"
    by (simp add: triggerDeployment_def updateRepositoryStatus_def initial_def
        initialRepositories_def initialPipelines_def newPipeline_def toString.simps digit_def)
  show ?thesis
    using progress_monotone [OF reachable_example(1) ids reachable_example(2)]
      reachable_example(1,2) ids
    unfolding Let_def by blast
qed

text \<open>
  Claim C9 as stated fails when two triggers read the same clock value: both runs get the
  id \<open>1700000000000\<close>, and each of the two intervals writes its own counter to both runs.
  After the first interval ticks with draw \<open>7/8\<close> (its counter is 18.125) the run at the
  head of the list records progress 18; after the second interval ticks with draw \<open>1/8\<close>
  (its counter is 6.875) it records progress 7, in stage \<open>build\<close> all along.
\<close>

theorem progress_decreases_on_shared_id:
  "(let s1 = snd (triggerDeployment (initialRepositories 0 ! 0) Staging 1700000000000 (initial 0));
        s2 = snd (triggerDeployment (repositories s1 ! 0) Production 1700000000000 s1);
        s3 = tick 0 (7 / 8) s2;
        s4 = tick 1 (1 / 8) s3
    in map pipe_id (take 2 (pipelines s2)) = [toString 1700000000000, toString 1700000000000] \<and>
       pipe_stage (hd (pipelines s3)) = Build \<and> pipe_progress (hd (pipelines s3)) = 18 \<and>
       pipe_stage (hd (pipelines s4)) = Build \<and> pipe_progress (hd (pipelines s4)) = 7)"
proof -
  define s1 where
    "s1 = snd (triggerDeployment (initialRepositories 0 ! 0) Staging 1700000000000 (initial 0))"
  define s2 where "s2 = snd (triggerDeployment (repositories s1 ! 0) Production 1700000000000 s1)"
  define s3 where "s3 = tick 0 (7 / 8) s2"
  define s4 where "s4 = tick 1 (1 / 8) s3"
  define A where "A = newPipeline (initialRepositories 0 ! 0) Staging 1700000000000"
  define B where "B = newPipeline (repositories s1 ! 0) Production 1700000000000"
  have gate1: "85 \<le> repo_qualityScore (initialRepositories 0 ! 0)"
    by (simp add: initialRepositories_def)
  have rs1: "repositories s1 ! 0 = (initialRepositories 0 ! 0)\<lparr>repo_status := Deploying\<rparr>"
    unfolding s1_def triggerDeployment_accepted(3) [OF gate1]
    by (simp add: updateRepositoryStatus_def initial_def initialRepositories_def)
  have gate2: "85 \<le> repo_qualityScore (repositories s1 ! 0)"
    by (simp add: rs1 initialRepositories_def)
  have ids: "pipe_id A = toString 1700000000000" "pipe_id B = toString 1700000000000"
    by (simp_all add: A_def B_def newPipeline_def)
  have p1: "pipelines s1 = A # initialPipelines"
    unfolding s1_def triggerDeployment_accepted(2) [OF gate1] by (simp add: A_def initial_def)
  have i1: "intervals s1
      = [\<lparr>tick_pipeline = toString 1700000000000, tick_repo = ''1'', tick_progress = 0\<rparr>]"
    unfolding s1_def triggerDeployment_accepted(4) [OF gate1]
    by (simp add: initial_def initialRepositories_def)
  have p2: "pipelines s2 = B # A # initialPipelines"
    unfolding s2_def triggerDeployment_accepted(2) [OF gate2] by (simp add: p1 B_def)
  have i2: "intervals s2
      = [\<lparr>tick_pipeline = toString 1700000000000, tick_repo = ''1'', tick_progress = 0\<rparr>,
         \<lparr>tick_pipeline = toString 1700000000000, tick_repo = ''1'', tick_progress = 0\<rparr>]"
    unfolding s2_def triggerDeployment_accepted(4) [OF gate2]
    by (simp add: i1 rs1 initialRepositories_def)
  have k2: "0 < length (intervals s2)" and ne2: "pipelines s2 \<noteq> []"
    and h2: "pipe_id (hd (pipelines s2)) = tick_pipeline (intervals s2 ! 0)"
    and c2: "145 / 8 = fl (tick_progress (intervals s2 ! 0) + fl (fl (7 / 8 * 15) + 5))"
    by (simp_all add: i2 p2 ids exact_values)
  note t3 = tick_head_running [OF k2 ne2 h2 c2, folded s3_def]
  have i3: "intervals s3
      = [\<lparr>tick_pipeline = toString 1700000000000, tick_repo = ''1'', tick_progress = 145 / 8\<rparr>,
         \<lparr>tick_pipeline = toString 1700000000000, tick_repo = ''1'', tick_progress = 0\<rparr>]"
    using t3(1) by (simp add: i2)
  have hd3: "pipe_stage (hd (pipelines s3)) = Build" "pipe_progress (hd (pipelines s3)) = 18"
    "pipe_id (hd (pipelines s3)) = toString 1700000000000" "pipelines s3 \<noteq> []"
    using t3(2-5) by (simp_all add: p2 ids stages_def Math_round_def)
  have k3: "1 < length (intervals s3)"
    and h3: "pipe_id (hd (pipelines s3)) = tick_pipeline (intervals s3 ! 1)"
    and c3: "55 / 8 = fl (tick_progress (intervals s3 ! 1) + fl (fl (1 / 8 * 15) + 5))"
    by (simp_all add: i3 hd3 exact_values)
  note t4 = tick_head_running [OF k3 hd3(4) h3 c3, folded s4_def]
  have hd4: "pipe_stage (hd (pipelines s4)) = Build" "pipe_progress (hd (pipelines s4)) = 7"
    using t4(4,5) by (simp_all add: stages_def Math_round_def)
  have "map pipe_id (take 2 (pipelines s2)) = [toString 1700000000000, toString 1700000000000]"
    by (simp add: p2 ids)
  with hd3(1,2) hd4 show ?thesis
    unfolding Let_def s1_def [symmetric] s2_def [symmetric] s3_def [symmetric] s4_def [symmetric]
    by simp
qed

subsection \<open>Progress is an integer between 0 and 100\<close>

text \<open>
  Claim C10. In every reachable state, so after every operation, the progress recorded by
  every run is an integer in \<open>[0, 100]\<close>. It is 0 in the run a trigger creates. A tick gives
  the runs with the id of its interval the progress \<open>Math.round(min(c, 100))\<close>, where \<open>c\<close>
  is the counter of the interval plus the increment, in the arithmetic of doubles: rounded
  to an integer and capped at 100; the other runs it leaves as they are. A cancel changes
  the recorded progress of no run.
\<close>

theorem progress_range:
  assumes "reachable s"
  shows "(\<forall>p \<in> set (pipelines s).
            pipe_progress p \<in> \<int> \<and> 0 \<le> pipe_progress p \<and> pipe_progress p \<le> 100) \<and>
         pipe_progress (newPipeline repo env now) = 0 \<and>
         map pipe_progress (pipelines (cancelDeployment pid s)) = map pipe_progress (pipelines s) \<and>
         (k < length (intervals s) \<longrightarrow>
            (\<forall>p \<in> set (pipelines (tick k r s)).
               (pipe_id p = tick_pipeline (intervals s ! k) \<longrightarrow>
                  pipe_progress p
                    = Math_round
                        (min (fl (tick_progress (intervals s ! k) + fl (fl (r * 15) + 5))) 100)) \<and>
               (pipe_id p \<noteq> tick_pipeline (intervals s ! k) \<longrightarrow> p \<in> set (pipelines s))))"
proof (intro conjI impI ballI)
  fix p assume "p \<in> set (pipelines s)"
  with reachable_bounded [OF assms]
  show "pipe_progress p \<in> \<int>" "0 \<le> pipe_progress p" "pipe_progress p \<le> 100"
    by (simp_all add: bounded_def)
next
  show "pipe_progress (newPipeline repo env now) = 0"
    by (simp add: newPipeline_def)
next
  show "map pipe_progress (pipelines (cancelDeployment pid s)) = map pipe_progress (pipelines s)"
    by (rule cancelDeployment_keys)
next
  fix p assume "k < length (intervals s)" "p \<in> set (pipelines (tick k r s))"
  then show "pipe_id p = tick_pipeline (intervals s ! k) \<Longrightarrow>
       pipe_progress p
         = Math_round (min (fl (tick_progress (intervals s ! k) + fl (fl (r * 15) + 5))) 100)"
    and "pipe_id p \<noteq> tick_pipeline (intervals s ! k) \<Longrightarrow> p \<in> set (pipelines s)"
    using tick_members by blast+
qed

theorem progress_range_witness:
  "(let s0 = snd (triggerDeployment (initialRepositories 0 ! 0) Staging 1700000000000 (initial 0))
    in reachable (tick 0 (1 / 2) s0) \<and>
       (\<forall>p \<in> set (pipelines (tick 0 (1 / 2) s0)).
          pipe_progress p \<in> \<int> \<and> 0 \<le> pipe_progress p \<and> pipe_progress p \<le> 100))"
  using progress_range [OF reachable_example(3), THEN conjunct1] reachable_example(3)
  unfolding Let_def by blast

section \<open>The life of a pipeline run\<close>

subsection \<open>A tick, position by position\<close>

lemma tickUpdate_nth:
  "length (pipelines (tickUpdate pid idx c s)) = length (pipelines s)"
  "j < length (pipelines s) \<Longrightarrow>
   pipelines (tickUpdate pid idx c s) ! j
     = (if pipe_id (pipelines s ! j) = pid
        then (pipelines s ! j)\<lparr>pipe_stage := stages ! idx, pipe_progress := Math_round c,
               pipe_duration := duration c\<rparr>
        else pipelines s ! j)"
  by (simp_all add: tickUpdate_def)

lemma tick_nth_running:
  assumes k: "k < length (intervals s)"
    and j: "j < length (pipelines s)"
    and id: "pipe_id (pipelines s ! j) = tick_pipeline (intervals s ! k)"
    and c: "c = fl (tick_progress (intervals s ! k) + fl (fl (r * 15) + 5))"
    and range: "0 \<le> c" "c < 100"
  shows "intervals (tick k r s) = (intervals s)[k := (intervals s ! k)\<lparr>tick_progress := c\<rparr>]"
    and "j < length (pipelines (tick k r s))"
    and "pipe_id (pipelines (tick k r s) ! j) = pipe_id (pipelines s ! j)"
    and "pipe_stage (pipelines (tick k r s) ! j) = stages ! nat \<lfloor>c / 100 * 4\<rfloor>"
    and "pipe_progress (pipelines (tick k r s) ! j) = Math_round c"
proof -
  have d: "is_double c"
    unfolding c by (rule fl_is_double)
  define s1 where "s1 = s\<lparr>intervals := (intervals s)[k := (intervals s ! k)\<lparr>tick_progress := c\<rparr>]\<rparr>"
  have eq: "tick k r s = tickUpdate (tick_pipeline (intervals s ! k)) (nat \<lfloor>c / 100 * 4\<rfloor>) c s1"
    unfolding s1_def tick_running [OF k c range(2)] stage_index_range(1) [OF d range] ..
  have s1: "j < length (pipelines s1)" "pipe_id (pipelines s1 ! j) = tick_pipeline (intervals s ! k)"
    "pipelines s1 = pipelines s"
    using j id by (simp_all add: s1_def)
  show "intervals (tick k r s) = (intervals s)[k := (intervals s ! k)\<lparr>tick_progress := c\<rparr>]"
    by (simp add: eq tickUpdate_frame s1_def)
  show "j < length (pipelines (tick k r s))"
    and "pipe_id (pipelines (tick k r s) ! j) = pipe_id (pipelines s ! j)"
    and "pipe_stage (pipelines (tick k r s) ! j) = stages ! nat \<lfloor>c / 100 * 4\<rfloor>"
    and "pipe_progress (pipelines (tick k r s) ! j) = Math_round c"
    unfolding eq using s1(1,2) by (simp_all add: tickUpdate_nth s1(3))
qed

lemma tick_nth_done:
  assumes k: "k < length (intervals s)"
    and j: "j < length (pipelines s)"
    and id: "pipe_id (pipelines s ! j) = tick_pipeline (intervals s ! k)"
    and c: "c = fl (tick_progress (intervals s ! k) + fl (fl (r * 15) + 5))"
    and range: "100 \<le> c"
  shows "intervals (tick k r s) = remove_nth k (intervals s)"
    and "j < length (pipelines (tick k r s))"
    and "pipe_id (pipelines (tick k r s) ! j) = pipe_id (pipelines s ! j)"
    and "pipe_stage (pipelines (tick k r s) ! j) = Completed"
    and "pipe_progress (pipelines (tick k r s) ! j) = 100"
proof -
  define s1 where "s1 = (updateRepositoryStatus (tick_repo (intervals s ! k)) Deployed s)
           \<lparr>intervals := remove_nth k (intervals s)\<rparr>"
  have eq: "tick k r s = tickUpdate (tick_pipeline (intervals s ! k)) 4 100 s1"
    unfolding s1_def by (rule tick_done [OF k c range])
  have s1: "j < length (pipelines s1)" "pipe_id (pipelines s1 ! j) = tick_pipeline (intervals s ! k)"
    "pipelines s1 = pipelines s"
    using j id by (simp_all add: s1_def updateRepositoryStatus_def)
  show "intervals (tick k r s) = remove_nth k (intervals s)"
    by (simp add: eq tickUpdate_frame s1_def)
  show "j < length (pipelines (tick k r s))"
    and "pipe_id (pipelines (tick k r s) ! j) = pipe_id (pipelines s ! j)"
    and "pipe_stage (pipelines (tick k r s) ! j) = Completed"
    and "pipe_progress (pipelines (tick k r s) ! j) = 100"
    unfolding eq using s1(1,2) by (simp_all add: tickUpdate_nth s1(3) stages_def Math_round_def)
qed

subsection \<open>Trigger and tick\<close>

lemma fl_numeral:
  assumes "(numeral n :: int) \<le> 2 ^ 53"
  shows "fl (numeral n) = numeral n"
  using is_double_of_int [of "numeral n"] assms by (simp add: is_double_def)

lemma exact_quarters:
  "fl (45 / 4) = 45 / 4" "fl (65 / 4) = 65 / 4" "fl (65 / 2) = 65 / 2" "fl (195 / 4) = 195 / 4"
  "fl (325 / 4) = 325 / 4" "fl (435 / 32) = 435 / 32" "fl (595 / 32) = 595 / 32"
  "fl (3195 / 32) = 3195 / 32"
  using is_double_dyadic [of 45 2] is_double_dyadic [of 65 2] is_double_dyadic [of 65 1]
    is_double_dyadic [of 195 2] is_double_dyadic [of 325 2] is_double_dyadic [of 435 5]
    is_double_dyadic [of 595 5] is_double_dyadic [of 3195 5]
  by (simp_all add: is_double_def)

lemma unit_draw_quarters: "unit_draw (3 / 4)" "unit_draw (29 / 32)"
  using is_double_dyadic [of 3 2] is_double_dyadic [of 29 5]
  by (simp_all add: unit_draw_def)

text \<open>
  Claim C4, as the code has it. A trigger on a repository with score at least 85 prepends
  a run in stage \<open>build\<close> with progress 0, sets the status of the repositories with that
  id to \<open>deploying\<close> and starts an interval whose counter is 0. In a reachable state, a tick
  with draw \<open>r\<close> adds to the counter of its interval the amount \<open>r * 15 + 5\<close> computed in
  doubles, which is \<open>r * 15 + 5\<close> up to \<open>2^-46\<close> and lies in \<open>[5, 20]\<close>, 20 included; the sum
  is rounded to a double, so the new
  counter \<open>c\<close> is larger than the old one, by 5 to 20 up to \<open>2^-47\<close>, and the counter is
  not rounded to an integer. While \<open>c\<close> is below 100, the runs with the interval's id get
  the stage at index \<open>floor(c / 100 * 4)\<close> of \<open>[build, test, security, deploy]\<close> (4 is the
  length of the extended stage list minus one; the index computed in doubles is this
  floor) and the recorded progress \<open>Math.round(c)\<close>, the interval keeps ticking and the
  registry is unchanged. Once \<open>c\<close> reaches 100, those runs get stage \<open>completed\<close> and
  progress 100, the repositories with the id held by the interval get status \<open>deployed\<close>,
  and the interval is removed; when no two runs share an id, no interval that is left
  holds the id of the run, so no tick reaches the run any more. Runs with another id are
  never touched by the tick.
\<close>

theorem deployment_run_progression:
  "(85 \<le> repo_qualityScore repo \<longrightarrow>
      (let s1 = snd (triggerDeployment repo env now s) in
         fst (triggerDeployment repo env now s) = None \<and>
         pipelines s1 = newPipeline repo env now # pipelines s \<and>
         pipe_id (newPipeline repo env now) = toString now \<and>
         pipe_stage (newPipeline repo env now) = Build \<and>
         pipe_progress (newPipeline repo env now) = 0 \<and>
         pipe_environment (newPipeline repo env now) = env \<and>
         length (repositories s1) = length (repositories s) \<and>
         (\<forall>j < length (repositories s).
            repositories s1 ! j
              = (if repo_id (repositories s ! j) = repo_id repo
                 then (repositories s ! j)\<lparr>repo_status := Deploying\<rparr>
                 else repositories s ! j)) \<and>
         intervals s1 = intervals s @
           [\<lparr>tick_pipeline = toString now, tick_repo = repo_id repo, tick_progress = 0\<rparr>])) \<and>
   (reachable s \<and> k < length (intervals s) \<and> unit_draw r \<longrightarrow>
      (let t = intervals s ! k;
           amount = fl (fl (r * 15) + 5);
           c = fl (tick_progress t + amount);
           s' = tick k r s
       in
         5 \<le> amount \<and> amount \<le> 20 \<and> \<bar>amount - (r * 15 + 5)\<bar> \<le> 1 / 2 ^ 46 \<and>
         tick_progress t < c \<and>
         tick_progress t + 5 - 1 / 2 ^ 47 \<le> c \<and> c \<le> tick_progress t + 20 + 1 / 2 ^ 47 \<and>
         length (pipelines s') = length (pipelines s) \<and>
         (c < 100 \<longrightarrow>
            intervals s' = (intervals s)[k := t\<lparr>tick_progress := c\<rparr>] \<and>
            repositories s' = repositories s \<and>
            nat \<lfloor>c / 100 * 4\<rfloor> < 4 \<and>
            (\<forall>j < length (pipelines s).
               pipelines s' ! j
                 = (if pipe_id (pipelines s ! j) = tick_pipeline t
                    then (pipelines s ! j)
                           \<lparr>pipe_stage := [Build, Test, Security, Deploy] ! nat \<lfloor>c / 100 * 4\<rfloor>,
                            pipe_progress := Math_round c, pipe_duration := duration c\<rparr>
                    else pipelines s ! j))) \<and>
         (100 \<le> c \<longrightarrow>
            intervals s' = remove_nth k (intervals s) \<and>
            length (intervals s') = length (intervals s) - 1 \<and>
            (\<forall>j < length (pipelines s).
               pipelines s' ! j
                 = (if pipe_id (pipelines s ! j) = tick_pipeline t
                    then (pipelines s ! j)
                           \<lparr>pipe_stage := Completed, pipe_progress := 100,
                            pipe_duration := duration 100\<rparr>
                    else pipelines s ! j)) \<and>
            length (repositories s') = length (repositories s) \<and>
            (\<forall>j < length (repositories s).
               repositories s' ! j
                 = (if repo_id (repositories s ! j) = tick_repo t
                    then (repositories s ! j)\<lparr>repo_status := Deployed\<rparr>
                    else repositories s ! j)) \<and>
            (distinct (map pipe_id (pipelines s)) \<longrightarrow>
               (\<forall>t' \<in> set (intervals s'). tick_pipeline t' \<noteq> tick_pipeline t)))))"
proof (intro conjI impI)
  assume gate: "85 \<le> repo_qualityScore repo"
  define s1 where "s1 = snd (triggerDeployment repo env now s)"
  have status: "length (repositories s1) = length (repositories s)"
    "\<forall>j < length (repositories s).
            repositories s1 ! j
              = (if repo_id (repositories s ! j) = repo_id repo
                 then (repositories s ! j)\<lparr>repo_status := Deploying\<rparr>
                 else repositories s ! j)"
    unfolding s1_def triggerDeployment_accepted(3) [OF gate]
    using updateRepositoryStatus_nth [where i = "repo_id repo" and st = Deploying and s = s]
    by blast+
  have new: "pipe_id (newPipeline repo env now) = toString now"
    "pipe_stage (newPipeline repo env now) = Build"
    "pipe_progress (newPipeline repo env now) = 0"
    "pipe_environment (newPipeline repo env now) = env"
    by (simp_all add: newPipeline_def)
  show "let s1 = snd (triggerDeployment repo env now s) in
         fst (triggerDeployment repo env now s) = None \<and>
         pipelines s1 = newPipeline repo env now # pipelines s \<and>
         pipe_id (newPipeline repo env now) = toString now \<and>
         pipe_stage (newPipeline repo env now) = Build \<and>
         pipe_progress (newPipeline repo env now) = 0 \<and>
         pipe_environment (newPipeline repo env now) = env \<and>
         length (repositories s1) = length (repositories s) \<and>
         (\<forall>j < length (repositories s).
            repositories s1 ! j
              = (if repo_id (repositories s ! j) = repo_id repo
                 then (repositories s ! j)\<lparr>repo_status := Deploying\<rparr>
                 else repositories s ! j)) \<and>
         intervals s1 = intervals s @
           [\<lparr>tick_pipeline = toString now, tick_repo = repo_id repo, tick_progress = 0\<rparr>]"
    unfolding Let_def s1_def [symmetric]
    using triggerDeployment_accepted(1) [OF gate, of env now s]
      triggerDeployment_accepted(2) [OF gate, of env now s, folded s1_def] new status
      triggerDeployment_accepted(4) [OF gate, of env now s, folded s1_def]
    by (intro conjI)
next
  assume "reachable s \<and> k < length (intervals s) \<and> unit_draw r"
  then have reach: "reachable s" and k: "k < length (intervals s)" and r: "unit_draw r"
    by simp_all
  define t where "t = intervals s ! k"
  define a where "a = fl (fl (r * 15) + 5)"
  define c where "c = fl (tick_progress t + a)"
  define s' where "s' = tick k r s"
  have c_eq: "c = fl (tick_progress (intervals s ! k) + fl (fl (r * 15) + 5))"
    by (simp add: c_def a_def t_def)
  have tin: "t \<in> set (intervals s)"
    using k by (simp add: t_def)
  have t3: "is_double (tick_progress t)" "0 \<le> tick_progress t" "tick_progress t < 100"
    using reachable_bounded [OF reach] tin by (simp_all add: bounded_def)
  have inc: "5 \<le> a" "a \<le> 20"
    unfolding a_def by (rule draw_increment [OF r])+
  have near: "\<bar>a - (r * 15 + 5)\<bar> \<le> 1 / 2 ^ 46"
    unfolding a_def by (rule draw_increment(3) [OF r])
  have adv: "tick_progress t < c" "tick_progress t + 5 - 1 / 2 ^ 47 \<le> c"
    "c \<le> tick_progress t + 20 + 1 / 2 ^ 47"
    unfolding c_def by (rule counter_advance [OF t3 inc])+
  have c0: "0 \<le> c"
    using adv(1) t3(2) by simp
  have cd: "is_double c"
    unfolding c_def by (rule fl_is_double)
  have len: "length (pipelines s') = length (pipelines s)"
  proof (cases "c < 100")
    case True
    show ?thesis
      unfolding s'_def tick_running [OF k c_eq True] by (simp add: tickUpdate_nth)
  next
    case False
    then have ge: "100 \<le> c" by simp
    show ?thesis
      unfolding s'_def tick_done [OF k c_eq ge]
      by (simp add: tickUpdate_nth updateRepositoryStatus_def)
  qed
  have running: "intervals s' = (intervals s)[k := t\<lparr>tick_progress := c\<rparr>] \<and>
            repositories s' = repositories s \<and>
            nat \<lfloor>c / 100 * 4\<rfloor> < 4 \<and>
            (\<forall>j < length (pipelines s).
               pipelines s' ! j
                 = (if pipe_id (pipelines s ! j) = tick_pipeline t
                    then (pipelines s ! j)
                           \<lparr>pipe_stage := [Build, Test, Security, Deploy] ! nat \<lfloor>c / 100 * 4\<rfloor>,
                            pipe_progress := Math_round c, pipe_duration := duration c\<rparr>
                    else pipelines s ! j))" if lt: "c < 100"
  proof -
    define s1 where "s1 = s\<lparr>intervals := (intervals s)[k := t\<lparr>tick_progress := c\<rparr>]\<rparr>"
    have eq: "s' = tickUpdate (tick_pipeline t) (nat \<lfloor>c / 100 * 4\<rfloor>) c s1"
      unfolding s'_def s1_def t_def tick_running [OF k c_eq lt]
        stage_index_range(1) [OF cd c0 lt] ..
    have idx: "nat \<lfloor>c / 100 * 4\<rfloor> < 4"
      by (rule stage_index_range(2) [OF cd c0 lt])
    have s1: "pipelines s1 = pipelines s" "repositories s1 = repositories s"
      "intervals s1 = (intervals s)[k := t\<lparr>tick_progress := c\<rparr>]"
      by (simp_all add: s1_def)
    have run: "pipelines s' ! j
                 = (if pipe_id (pipelines s ! j) = tick_pipeline t
                    then (pipelines s ! j)
                           \<lparr>pipe_stage := [Build, Test, Security, Deploy] ! nat \<lfloor>c / 100 * 4\<rfloor>,
                            pipe_progress := Math_round c, pipe_duration := duration c\<rparr>
                    else pipelines s ! j)" if "j < length (pipelines s)" for j
    proof -
      have "pipelines s' ! j
          = (if pipe_id (pipelines s1 ! j) = tick_pipeline t
             then (pipelines s1 ! j)\<lparr>pipe_stage := stages ! nat \<lfloor>c / 100 * 4\<rfloor>,
                    pipe_progress := Math_round c, pipe_duration := duration c\<rparr>
             else pipelines s1 ! j)"
        unfolding eq using that by (intro tickUpdate_nth(2)) (simp add: s1(1))
      then show ?thesis
        unfolding s1(1) stages_nth [OF idx] .
    qed
    show ?thesis
      using idx run by (simp add: eq tickUpdate_frame s1)
  qed
  have finished: "intervals s' = remove_nth k (intervals s) \<and>
            length (intervals s') = length (intervals s) - 1 \<and>
            (\<forall>j < length (pipelines s).
               pipelines s' ! j
                 = (if pipe_id (pipelines s ! j) = tick_pipeline t
                    then (pipelines s ! j)
                           \<lparr>pipe_stage := Completed, pipe_progress := 100,
                            pipe_duration := duration 100\<rparr>
                    else pipelines s ! j)) \<and>
            length (repositories s') = length (repositories s) \<and>
            (\<forall>j < length (repositories s).
               repositories s' ! j
                 = (if repo_id (repositories s ! j) = tick_repo t
                    then (repositories s ! j)\<lparr>repo_status := Deployed\<rparr>
                    else repositories s ! j)) \<and>
            (distinct (map pipe_id (pipelines s)) \<longrightarrow>
               (\<forall>t' \<in> set (intervals s'). tick_pipeline t' \<noteq> tick_pipeline t))" if ge: "100 \<le> c"
  proof -
    define s1 where "s1 = (updateRepositoryStatus (tick_repo t) Deployed s)
        \<lparr>intervals := remove_nth k (intervals s)\<rparr>"
    have eq: "s' = tickUpdate (tick_pipeline t) 4 100 s1"
      unfolding s'_def s1_def t_def by (rule tick_done [OF k c_eq ge])
    have s1: "pipelines s1 = pipelines s"
      "repositories s1 = repositories (updateRepositoryStatus (tick_repo t) Deployed s)"
      "intervals s1 = remove_nth k (intervals s)"
      by (simp_all add: s1_def updateRepositoryStatus_def)
    have run: "pipelines s' ! j
                 = (if pipe_id (pipelines s ! j) = tick_pipeline t
                    then (pipelines s ! j)
                           \<lparr>pipe_stage := Completed, pipe_progress := 100,
                            pipe_duration := duration 100\<rparr>
                    else pipelines s ! j)" if "j < length (pipelines s)" for j
      unfolding eq using that
      by (simp add: tickUpdate_nth(2) s1(1) stages_def Math_round_def)
    have repos: "repositories s' = repositories (updateRepositoryStatus (tick_repo t) Deployed s)"
      by (simp add: eq tickUpdate_frame s1)
    have st: "length (repositories s') = length (repositories s)"
      "\<forall>j < length (repositories s).
               repositories s' ! j
                 = (if repo_id (repositories s ! j) = tick_repo t
                    then (repositories s ! j)\<lparr>repo_status := Deployed\<rparr>
                    else repositories s ! j)"
      unfolding repos
      using updateRepositoryStatus_nth [where i = "tick_repo t" and st = Deployed and s = s]
      by blast+
    have iv: "intervals s' = remove_nth k (intervals s)"
      by (simp add: eq tickUpdate_frame s1)
    have "length (remove_nth k (intervals s)) = length (intervals s) - 1"
      using k by (simp add: remove_nth_def)
    with iv have lv: "length (intervals s') = length (intervals s) - 1"
      by simp
    have halt: "\<forall>t' \<in> set (intervals s'). tick_pipeline t' \<noteq> tick_pipeline t"
      if ids: "distinct (map pipe_id (pipelines s))"
    proof
      fix t' assume "t' \<in> set (intervals s')"
      then have "t' \<in> set (remove_nth k (intervals s))"
        by (simp only: iv)
      then obtain i where i: "i < length (intervals s)" "i \<noteq> k" "t' = intervals s ! i"
        by (rule in_set_remove_nthE)
      have "distinct (map tick_pipeline (intervals s))"
        using reachable_consistent [OF reach ids] by (simp add: consistent_def)
      then have "tick_pipeline (intervals s ! i) \<noteq> tick_pipeline (intervals s ! k)"
        using i(1) k i(2) by (rule distinct_map_nth_neq)
      then show "tick_pipeline t' \<noteq> tick_pipeline t"
        by (simp add: i(3) t_def)
    qed
    have run_all: "\<forall>j < length (pipelines s).
               pipelines s' ! j
                 = (if pipe_id (pipelines s ! j) = tick_pipeline t
                    then (pipelines s ! j)
                           \<lparr>pipe_stage := Completed, pipe_progress := 100,
                            pipe_duration := duration 100\<rparr>
                    else pipelines s ! j)"
      using run by blast
    have halt_imp: "distinct (map pipe_id (pipelines s)) \<longrightarrow>
               (\<forall>t' \<in> set (intervals s'). tick_pipeline t' \<noteq> tick_pipeline t)"
      using halt by blast
    show ?thesis
      using iv lv run_all st halt_imp by (intro conjI)
  qed
  show "(let t = intervals s ! k;
           amount = fl (fl (r * 15) + 5);
           c = fl (tick_progress t + amount);
           s' = tick k r s
       in
         5 \<le> amount \<and> amount \<le> 20 \<and> \<bar>amount - (r * 15 + 5)\<bar> \<le> 1 / 2 ^ 46 \<and>
         tick_progress t < c \<and>
         tick_progress t + 5 - 1 / 2 ^ 47 \<le> c \<and> c \<le> tick_progress t + 20 + 1 / 2 ^ 47 \<and>
         length (pipelines s') = length (pipelines s) \<and>
         (c < 100 \<longrightarrow>
            intervals s' = (intervals s)[k := t\<lparr>tick_progress := c\<rparr>] \<and>
            repositories s' = repositories s \<and>
            nat \<lfloor>c / 100 * 4\<rfloor> < 4 \<and>
            (\<forall>j < length (pipelines s).
               pipelines s' ! j
                 = (if pipe_id (pipelines s ! j) = tick_pipeline t
                    then (pipelines s ! j)
                           \<lparr>pipe_stage := [Build, Test, Security, Deploy] ! nat \<lfloor>c / 100 * 4\<rfloor>,
                            pipe_progress := Math_round c, pipe_duration := duration c\<rparr>
                    else pipelines s ! j))) \<and>
         (100 \<le> c \<longrightarrow>
            intervals s' = remove_nth k (intervals s) \<and>
            length (intervals s') = length (intervals s) - 1 \<and>
            (\<forall>j < length (pipelines s).
               pipelines s' ! j
                 = (if pipe_id (pipelines s ! j) = tick_pipeline t
                    then (pipelines s ! j)
                           \<lparr>pipe_stage := Completed, pipe_progress := 100,
                            pipe_duration := duration 100\<rparr>
                    else pipelines s ! j)) \<and>
            length (repositories s') = length (repositories s) \<and>
            (\<forall>j < length (repositories s).
               repositories s' ! j
                 = (if repo_id (repositories s ! j) = tick_repo t
                    then (repositories s ! j)\<lparr>repo_status := Deployed\<rparr>
                    else repositories s ! j)) \<and>
            (distinct (map pipe_id (pipelines s)) \<longrightarrow>
               (\<forall>t' \<in> set (intervals s'). tick_pipeline t' \<noteq> tick_pipeline t))))"
    unfolding Let_def t_def [symmetric] a_def [symmetric] c_def [symmetric] s'_def [symmetric]
  proof (intro conjI)
    show "c < 100 \<longrightarrow>
            intervals s' = (intervals s)[k := t\<lparr>tick_progress := c\<rparr>] \<and>
            repositories s' = repositories s \<and>
            nat \<lfloor>c / 100 * 4\<rfloor> < 4 \<and>
            (\<forall>j < length (pipelines s).
               pipelines s' ! j
                 = (if pipe_id (pipelines s ! j) = tick_pipeline t
                    then (pipelines s ! j)
                           \<lparr>pipe_stage := [Build, Test, Security, Deploy] ! nat \<lfloor>c / 100 * 4\<rfloor>,
                            pipe_progress := Math_round c, pipe_duration := duration c\<rparr>
                    else pipelines s ! j))"
      by (rule impI) (rule running)
    show "100 \<le> c \<longrightarrow>
            intervals s' = remove_nth k (intervals s) \<and>
            length (intervals s') = length (intervals s) - 1 \<and>
            (\<forall>j < length (pipelines s).
               pipelines s' ! j
                 = (if pipe_id (pipelines s ! j) = tick_pipeline t
                    then (pipelines s ! j)
                           \<lparr>pipe_stage := Completed, pipe_progress := 100,
                            pipe_duration := duration 100\<rparr>
                    else pipelines s ! j)) \<and>
            length (repositories s') = length (repositories s) \<and>
            (\<forall>j < length (repositories s).
               repositories s' ! j
                 = (if repo_id (repositories s ! j) = tick_repo t
                    then (repositories s ! j)\<lparr>repo_status := Deployed\<rparr>
                    else repositories s ! j)) \<and>
            (distinct (map pipe_id (pipelines s)) \<longrightarrow>
               (\<forall>t' \<in> set (intervals s'). tick_pipeline t' \<noteq> tick_pipeline t))"
      by (rule impI) (rule finished)
  qed (fact inc near adv len)+
qed

theorem deployment_run_progression_witness:
  "85 \<le> repo_qualityScore (initialRepositories 0 ! 0) \<and>
   (let s0 = snd (triggerDeployment (initialRepositories 0 ! 0) Staging 1700000000000 (initial 0))
    in pipelines s0 = newPipeline (initialRepositories 0 ! 0) Staging 1700000000000
                       # pipelines (initial 0) \<and>
       reachable s0 \<and> 0 < length (intervals s0) \<and> unit_draw (1 / 2) \<and>
       map tick_progress (intervals (tick 0 (1 / 2) s0)) = [25 / 2] \<and>
       pipe_stage (pipelines (tick 0 (1 / 2) s0) ! 0) = Build \<and>
       pipe_progress (pipelines (tick 0 (1 / 2) s0) ! 0) = 13)"
proof -
  define s0 where
    "s0 = snd (triggerDeployment (initialRepositories 0 ! 0) Staging 1700000000000 (initial 0))"
  have gate: "85 \<le> repo_qualityScore (initialRepositories 0 ! 0)"
    by (simp add: initialRepositories_def)
  note started = deployment_run_progression [of "initialRepositories 0 ! 0" Staging 1700000000000
      "initial 0", unfolded Let_def, THEN conjunct1, THEN mp, OF gate, folded s0_def]
  have ps: "pipelines s0 = newPipeline (initialRepositories 0 ! 0) Staging 1700000000000
                       # pipelines (initial 0)"
    by (rule started [THEN conjunct2, THEN conjunct1])
  have iv: "intervals s0 = intervals (initial 0) @
      [\<lparr>tick_pipeline = toString 1700000000000, tick_repo = repo_id (initialRepositories 0 ! 0),
        tick_progress = 0\<rparr>]"
    using started by blast
  then have iv0: "intervals s0 = [\<lparr>tick_pipeline = toString 1700000000000,
      tick_repo = repo_id (initialRepositories 0 ! 0), tick_progress = 0\<rparr>]"
    by (simp add: initial_def)
  have reach: "reachable s0"
    unfolding s0_def by (rule reachable_example(1))
  have hyp: "reachable s0 \<and> 0 < length (intervals s0) \<and> unit_draw (1 / 2)"
    using reach unit_draw_examples(1) by (simp add: iv0)
  have c: "fl (tick_progress (intervals s0 ! 0) + fl (fl (1 / 2 * 15) + 5)) = 25 / 2"
    by (simp add: iv0 exact_values)
  note ticked = deployment_run_progression [where s = s0 and k = 0 and r = "1 / 2",
      unfolded Let_def, THEN conjunct2, THEN mp, OF hyp, unfolded c]
  have lt: "(25 / 2 :: real) < 100"
    by simp
  have "intervals (tick 0 (1 / 2) s0)
      = (intervals s0)[0 := (intervals s0 ! 0)\<lparr>tick_progress := 25 / 2\<rparr>]"
    using ticked lt by blast
  then have counter: "map tick_progress (intervals (tick 0 (1 / 2) s0)) = [25 / 2]"
    by (simp add: iv0)
  have "\<forall>j < length (pipelines s0).
      pipelines (tick 0 (1 / 2) s0) ! j
        = (if pipe_id (pipelines s0 ! j) = tick_pipeline (intervals s0 ! 0)
           then (pipelines s0 ! j)
                  \<lparr>pipe_stage := [Build, Test, Security, Deploy] ! nat \<lfloor>(25 / 2 :: real) / 100 * 4\<rfloor>,
                   pipe_progress := Math_round (25 / 2), pipe_duration := duration (25 / 2)\<rparr>
           else pipelines s0 ! j)"
    using ticked lt by blast
  then have run: "pipe_stage (pipelines (tick 0 (1 / 2) s0) ! 0) = Build"
    "pipe_progress (pipelines (tick 0 (1 / 2) s0) ! 0) = 13"
    by (simp_all add: ps iv0 newPipeline_def Math_round_def)
  from gate ps hyp counter run show ?thesis
    unfolding Let_def s0_def [symmetric] by simp
qed

text \<open>
  Claim C4 as stated fails in three ways. The increment is not below 20: at the largest
  double below 1 the product \<open>r * 15\<close> rounds to \<open>15 - 2^-49\<close> and the sum with 5 rounds to
  20. Read on the progress a run records, the claim fails because the stage follows the
  unrounded counter: after five ticks with draw \<open>3/4\<close> (increment 16.25) and one with draw
  \<open>29/32\<close> (increment 18.59375) the counter is 99.84375, and the run records progress 100
  while its stage is \<open>deploy\<close>, the repository is still \<open>deploying\<close> and the interval is
  still live. And ticking does not halt for a run that shares its id: when two triggers
  read the same clock value and the interval of the first run reaches 100 (five ticks
  with the largest draw), that run is \<open>completed\<close> at 100 and its interval is removed, but
  a tick of the other interval, with draw \<open>1/8\<close>, puts it back to stage \<open>build\<close> with
  progress 7.
\<close>

theorem deployment_run_deviations:
  "unit_draw (1 - 1 / 2 ^ 53) \<and> fl (fl ((1 - 1 / 2 ^ 53) * 15) + 5) = 20 \<and>
   (let s0 = snd (triggerDeployment (initialRepositories 0 ! 0) Staging 1700000000000 (initial 0));
        s6 = tick 0 (29 / 32) (tick 0 (3 / 4) (tick 0 (3 / 4) (tick 0 (3 / 4)
               (tick 0 (3 / 4) (tick 0 (3 / 4) s0)))))
    in reachable s6 \<and>
       tick_progress (hd (intervals s6)) = 3195 / 32 \<and>
       pipe_progress (hd (pipelines s6)) = 100 \<and>
       pipe_stage (hd (pipelines s6)) = Deploy \<and>
       repo_status (hd (repositories s6)) = Deploying \<and>
       length (intervals s6) = 1) \<and>
   (let s1 = snd (triggerDeployment (initialRepositories 0 ! 0) Staging 1700000000000 (initial 0));
        s2 = snd (triggerDeployment (repositories s1 ! 0) Production 1700000000000 s1);
        s7 = tick 0 (1 - 1 / 2 ^ 53) (tick 0 (1 - 1 / 2 ^ 53) (tick 0 (1 - 1 / 2 ^ 53)
               (tick 0 (1 - 1 / 2 ^ 53) (tick 0 (1 - 1 / 2 ^ 53) s2))));
        s8 = tick 0 (1 / 8) s7
    in pipe_id (pipelines s2 ! 0) = ''1700000000000'' \<and>
       pipe_id (pipelines s2 ! 1) = ''1700000000000'' \<and>
       pipe_environment (pipelines s2 ! 1) = Staging \<and>
       length (intervals s2) = 2 \<and>
       pipe_stage (pipelines s7 ! 1) = Completed \<and>
       pipe_progress (pipelines s7 ! 1) = 100 \<and>
       length (intervals s7) = 1 \<and>
       reachable s8 \<and>
       pipe_stage (pipelines s8 ! 1) = Build \<and>
       pipe_progress (pipelines s8 ! 1) = 7)"
proof -
  define x :: real where "x = 1 - 1 / 2 ^ 53"
  define s0 where
    "s0 = snd (triggerDeployment (initialRepositories 0 ! 0) Staging 1700000000000 (initial 0))"
  have N: "toString 1700000000000 = ''1700000000000''"
    by (simp add: toString.simps digit_def)
  have x: "unit_draw x" and inc: "fl (fl (x * 15) + 5) = 20"
    unfolding x_def by (simp_all only: largest_draw)
  have gate: "85 \<le> repo_qualityScore (initialRepositories 0 ! 0)"
    by (simp add: initialRepositories_def)
  have i0: "intervals s0 = [\<lparr>tick_pipeline = ''1700000000000'', tick_repo = ''1'',
      tick_progress = 0\<rparr>]"
    unfolding s0_def triggerDeployment_accepted(4) [OF gate]
    by (simp add: initial_def initialRepositories_def N)
  have p0: "pipelines s0 \<noteq> []" "pipe_id (hd (pipelines s0)) = ''1700000000000''"
    unfolding s0_def triggerDeployment_accepted(2) [OF gate]
    by (simp_all add: newPipeline_def N)
  have r0: "repo_status (hd (repositories s0)) = Deploying"
    unfolding s0_def triggerDeployment_accepted(3) [OF gate]
    by (simp add: updateRepositoryStatus_def initial_def initialRepositories_def)
  define a1 where "a1 = tick 0 (3 / 4) s0"
  define a2 where "a2 = tick 0 (3 / 4) a1"
  define a3 where "a3 = tick 0 (3 / 4) a2"
  define a4 where "a4 = tick 0 (3 / 4) a3"
  define a5 where "a5 = tick 0 (3 / 4) a4"
  define a6 where "a6 = tick 0 (29 / 32) a5"
  have "0 < length (intervals s0)" "pipe_id (hd (pipelines s0)) = tick_pipeline (intervals s0 ! 0)"
    "65 / 4 = fl (tick_progress (intervals s0 ! 0) + fl (fl (3 / 4 * 15) + 5))"
    by (simp_all add: i0 p0 exact_quarters)
  note f1 = tick_head_running [OF this(1) p0(1) this(2,3), folded a1_def]
  have i1: "intervals a1 = [\<lparr>tick_pipeline = ''1700000000000'', tick_repo = ''1'',
      tick_progress = 65 / 4\<rparr>]"
    and p1: "pipelines a1 \<noteq> []" "pipe_id (hd (pipelines a1)) = ''1700000000000''"
    and r1: "repositories a1 = repositories s0"
    using f1(1,2,3,6) by (simp_all add: i0 p0)
  have "0 < length (intervals a1)" "pipe_id (hd (pipelines a1)) = tick_pipeline (intervals a1 ! 0)"
    "65 / 2 = fl (tick_progress (intervals a1 ! 0) + fl (fl (3 / 4 * 15) + 5))"
    by (simp_all add: i1 p1 exact_quarters)
  note f2 = tick_head_running [OF this(1) p1(1) this(2,3), folded a2_def]
  have i2: "intervals a2 = [\<lparr>tick_pipeline = ''1700000000000'', tick_repo = ''1'',
      tick_progress = 65 / 2\<rparr>]"
    and p2: "pipelines a2 \<noteq> []" "pipe_id (hd (pipelines a2)) = ''1700000000000''"
    and r2: "repositories a2 = repositories s0"
    using f2(1,2,3,6) by (simp_all add: i1 p1 r1)
  have "0 < length (intervals a2)" "pipe_id (hd (pipelines a2)) = tick_pipeline (intervals a2 ! 0)"
    "195 / 4 = fl (tick_progress (intervals a2 ! 0) + fl (fl (3 / 4 * 15) + 5))"
    by (simp_all add: i2 p2 exact_quarters)
  note f3 = tick_head_running [OF this(1) p2(1) this(2,3), folded a3_def]
  have i3: "intervals a3 = [\<lparr>tick_pipeline = ''1700000000000'', tick_repo = ''1'',
      tick_progress = 195 / 4\<rparr>]"
    and p3: "pipelines a3 \<noteq> []" "pipe_id (hd (pipelines a3)) = ''1700000000000''"
    and r3: "repositories a3 = repositories s0"
    using f3(1,2,3,6) by (simp_all add: i2 p2 r2)
  have "0 < length (intervals a3)" "pipe_id (hd (pipelines a3)) = tick_pipeline (intervals a3 ! 0)"
    "65 = fl (tick_progress (intervals a3 ! 0) + fl (fl (3 / 4 * 15) + 5))"
    by (simp_all add: i3 p3 exact_quarters fl_numeral)
  note f4 = tick_head_running [OF this(1) p3(1) this(2,3), folded a4_def]
  have i4: "intervals a4 = [\<lparr>tick_pipeline = ''1700000000000'', tick_repo = ''1'',
      tick_progress = 65\<rparr>]"
    and p4: "pipelines a4 \<noteq> []" "pipe_id (hd (pipelines a4)) = ''1700000000000''"
    and r4: "repositories a4 = repositories s0"
    using f4(1,2,3,6) by (simp_all add: i3 p3 r3)
  have "0 < length (intervals a4)" "pipe_id (hd (pipelines a4)) = tick_pipeline (intervals a4 ! 0)"
    "325 / 4 = fl (tick_progress (intervals a4 ! 0) + fl (fl (3 / 4 * 15) + 5))"
    by (simp_all add: i4 p4 exact_quarters)
  note f5 = tick_head_running [OF this(1) p4(1) this(2,3), folded a5_def]
  have i5: "intervals a5 = [\<lparr>tick_pipeline = ''1700000000000'', tick_repo = ''1'',
      tick_progress = 325 / 4\<rparr>]"
    and p5: "pipelines a5 \<noteq> []" "pipe_id (hd (pipelines a5)) = ''1700000000000''"
    and r5: "repositories a5 = repositories s0"
    using f5(1,2,3,6) by (simp_all add: i4 p4 r4)
  have "0 < length (intervals a5)" "pipe_id (hd (pipelines a5)) = tick_pipeline (intervals a5 ! 0)"
    "3195 / 32 = fl (tick_progress (intervals a5 ! 0) + fl (fl (29 / 32 * 15) + 5))"
    by (simp_all add: i5 p5 exact_quarters)
  note f6 = tick_head_running [OF this(1) p5(1) this(2,3), folded a6_def]
  have "reachable s0"
    unfolding s0_def by (rule reachable_example(1))
  moreover have "step s0 a1"
    unfolding a1_def using unit_draw_quarters(1) by (intro step.ticked) (simp_all add: i0)
  ultimately have "reachable a1"
    by (rule reachable.next_state)
  moreover have "step a1 a2"
    unfolding a2_def using unit_draw_quarters(1) by (intro step.ticked) (simp_all add: i1)
  ultimately have "reachable a2"
    by (rule reachable.next_state)
  moreover have "step a2 a3"
    unfolding a3_def using unit_draw_quarters(1) by (intro step.ticked) (simp_all add: i2)
  ultimately have "reachable a3"
    by (rule reachable.next_state)
  moreover have "step a3 a4"
    unfolding a4_def using unit_draw_quarters(1) by (intro step.ticked) (simp_all add: i3)
  ultimately have "reachable a4"
    by (rule reachable.next_state)
  moreover have "step a4 a5"
    unfolding a5_def using unit_draw_quarters(1) by (intro step.ticked) (simp_all add: i4)
  ultimately have "reachable a5"
    by (rule reachable.next_state)
  moreover have "step a5 a6"
    unfolding a6_def using unit_draw_quarters(2) by (intro step.ticked) (simp_all add: i5)
  ultimately have reach6: "reachable a6"
    by (rule reachable.next_state)
  have rounded: "reachable a6"
    "tick_progress (hd (intervals a6)) = 3195 / 32"
    "pipe_progress (hd (pipelines a6)) = 100"
    "pipe_stage (hd (pipelines a6)) = Deploy"
    "repo_status (hd (repositories a6)) = Deploying"
    "length (intervals a6) = 1"
    using reach6 f6(1,4,5,6) by (simp_all add: i5 r5 r0 stages_def Math_round_def)
  define s1 where
    "s1 = snd (triggerDeployment (initialRepositories 0 ! 0) Staging 1700000000000 (initial 0))"
  define s2 where "s2 = snd (triggerDeployment (repositories s1 ! 0) Production 1700000000000 s1)"
  define b1 where "b1 = tick 0 x s2"
  define b2 where "b2 = tick 0 x b1"
  define b3 where "b3 = tick 0 x b2"
  define b4 where "b4 = tick 0 x b3"
  define b5 where "b5 = tick 0 x b4"
  define b6 where "b6 = tick 0 (1 / 8) b5"
  have rs1: "repositories s1 ! 0 = (initialRepositories 0 ! 0)\<lparr>repo_status := Deploying\<rparr>"
    and m1: "initialRepositories 0 ! 0 \<in> set (repositories (initial 0))"
    and n1: "repositories s1 ! 0 \<in> set (repositories s1)"
    unfolding s1_def triggerDeployment_accepted(3) [OF gate]
    by (simp_all add: updateRepositoryStatus_def initial_def initialRepositories_def del: One_nat_def)
  have gate2: "85 \<le> repo_qualityScore (repositories s1 ! 0)"
    by (simp add: rs1 initialRepositories_def)
  have q1: "pipelines s1 = newPipeline (initialRepositories 0 ! 0) Staging 1700000000000
      # initialPipelines"
    unfolding s1_def triggerDeployment_accepted(2) [OF gate] by (simp add: initial_def)
  have j1: "intervals s1 = [\<lparr>tick_pipeline = ''1700000000000'', tick_repo = ''1'',
      tick_progress = 0\<rparr>]"
    using i0 by (simp add: s0_def s1_def)
  have q2: "1 < length (pipelines s2)" "pipe_id (pipelines s2 ! 0) = ''1700000000000''"
    "pipe_id (pipelines s2 ! 1) = ''1700000000000''"
    "pipe_environment (pipelines s2 ! 1) = Staging"
    unfolding s2_def triggerDeployment_accepted(2) [OF gate2]
    by (simp_all add: q1 newPipeline_def N del: One_nat_def)
  have j2: "intervals s2
      = [\<lparr>tick_pipeline = ''1700000000000'', tick_repo = ''1'', tick_progress = 0\<rparr>,
         \<lparr>tick_pipeline = ''1700000000000'', tick_repo = ''1'', tick_progress = 0\<rparr>]"
    unfolding s2_def triggerDeployment_accepted(4) [OF gate2]
    by (simp add: j1 rs1 initialRepositories_def N)
  have "0 < length (intervals s2)" "pipe_id (pipelines s2 ! 1) = tick_pipeline (intervals s2 ! 0)"
    "20 = fl (tick_progress (intervals s2 ! 0) + fl (fl (x * 15) + 5))"
    by (simp_all add: j2 q2 inc fl_numeral del: One_nat_def)
  note g1 = tick_nth_running [OF this(1) q2(1) this(2,3), folded b1_def]
  have k1: "0 < length (intervals b1)"
    and l1: "intervals b1
      = [\<lparr>tick_pipeline = ''1700000000000'', tick_repo = ''1'', tick_progress = 20\<rparr>,
         \<lparr>tick_pipeline = ''1700000000000'', tick_repo = ''1'', tick_progress = 0\<rparr>]"
    and o1: "1 < length (pipelines b1)" "pipe_id (pipelines b1 ! 1) = ''1700000000000''"
    using g1(1,2,3) by (simp_all add: j2 q2 del: One_nat_def)
  have "pipe_id (pipelines b1 ! 1) = tick_pipeline (intervals b1 ! 0)"
    "40 = fl (tick_progress (intervals b1 ! 0) + fl (fl (x * 15) + 5))"
    by (simp_all add: l1 o1 inc fl_numeral del: One_nat_def)
  note g2 = tick_nth_running [OF k1 o1(1) this, folded b2_def]
  have k2: "0 < length (intervals b2)"
    and l2: "intervals b2
      = [\<lparr>tick_pipeline = ''1700000000000'', tick_repo = ''1'', tick_progress = 40\<rparr>,
         \<lparr>tick_pipeline = ''1700000000000'', tick_repo = ''1'', tick_progress = 0\<rparr>]"
    and o2: "1 < length (pipelines b2)" "pipe_id (pipelines b2 ! 1) = ''1700000000000''"
    using g2(1,2,3) by (simp_all add: l1 o1 del: One_nat_def)
  have "pipe_id (pipelines b2 ! 1) = tick_pipeline (intervals b2 ! 0)"
    "60 = fl (tick_progress (intervals b2 ! 0) + fl (fl (x * 15) + 5))"
    by (simp_all add: l2 o2 inc fl_numeral del: One_nat_def)
  note g3 = tick_nth_running [OF k2 o2(1) this, folded b3_def]
  have k3: "0 < length (intervals b3)"
    and l3: "intervals b3
      = [\<lparr>tick_pipeline = ''1700000000000'', tick_repo = ''1'', tick_progress = 60\<rparr>,
         \<lparr>tick_pipeline = ''1700000000000'', tick_repo = ''1'', tick_progress = 0\<rparr>]"
    and o3: "1 < length (pipelines b3)" "pipe_id (pipelines b3 ! 1) = ''1700000000000''"
    using g3(1,2,3) by (simp_all add: l2 o2 del: One_nat_def)
  have "pipe_id (pipelines b3 ! 1) = tick_pipeline (intervals b3 ! 0)"
    "80 = fl (tick_progress (intervals b3 ! 0) + fl (fl (x * 15) + 5))"
    by (simp_all add: l3 o3 inc fl_numeral del: One_nat_def)
  note g4 = tick_nth_running [OF k3 o3(1) this, folded b4_def]
  have k4: "0 < length (intervals b4)"
    and l4: "intervals b4
      = [\<lparr>tick_pipeline = ''1700000000000'', tick_repo = ''1'', tick_progress = 80\<rparr>,
         \<lparr>tick_pipeline = ''1700000000000'', tick_repo = ''1'', tick_progress = 0\<rparr>]"
    and o4: "1 < length (pipelines b4)" "pipe_id (pipelines b4 ! 1) = ''1700000000000''"
    using g4(1,2,3) by (simp_all add: l3 o3 del: One_nat_def)
  have "pipe_id (pipelines b4 ! 1) = tick_pipeline (intervals b4 ! 0)"
    "100 = fl (tick_progress (intervals b4 ! 0) + fl (fl (x * 15) + 5))"
    by (simp_all add: l4 o4 inc fl_numeral del: One_nat_def)
  note g5 = tick_nth_done [OF k4 o4(1) this, folded b5_def]
  have k5: "0 < length (intervals b5)"
    and l5: "intervals b5
      = [\<lparr>tick_pipeline = ''1700000000000'', tick_repo = ''1'', tick_progress = 0\<rparr>]"
    and o5: "1 < length (pipelines b5)" "pipe_id (pipelines b5 ! 1) = ''1700000000000''"
    "pipe_stage (pipelines b5 ! 1) = Completed" "pipe_progress (pipelines b5 ! 1) = 100"
    using g5 by (simp_all add: l4 o4 remove_nth_def del: One_nat_def)
  have "pipe_id (pipelines b5 ! 1) = tick_pipeline (intervals b5 ! 0)"
    "55 / 8 = fl (tick_progress (intervals b5 ! 0) + fl (fl (1 / 8 * 15) + 5))"
    by (simp_all add: l5 o5 exact_values del: One_nat_def)
  note g6 = tick_nth_running [OF k5 o5(1) this, folded b6_def]
  have o6: "pipe_stage (pipelines b6 ! 1) = Build" "pipe_progress (pipelines b6 ! 1) = 7"
    using g6(4,5) by (simp_all add: stages_def Math_round_def del: One_nat_def)
  have "step (initial 0) s1"
    unfolding s1_def by (rule step.trigger [OF m1])
  with reachable.start have "reachable s1"
    by (rule reachable.next_state)
  moreover have "step s1 s2"
    unfolding s2_def by (rule step.trigger [OF n1])
  ultimately have "reachable s2"
    by (rule reachable.next_state)
  moreover have "step s2 b1"
    unfolding b1_def using x by (intro step.ticked) (simp_all add: j2)
  ultimately have "reachable b1"
    by (rule reachable.next_state)
  moreover have "step b1 b2"
    unfolding b2_def by (rule step.ticked [OF k1 x])
  ultimately have "reachable b2"
    by (rule reachable.next_state)
  moreover have "step b2 b3"
    unfolding b3_def by (rule step.ticked [OF k2 x])
  ultimately have "reachable b3"
    by (rule reachable.next_state)
  moreover have "step b3 b4"
    unfolding b4_def by (rule step.ticked [OF k3 x])
  ultimately have "reachable b4"
    by (rule reachable.next_state)
  moreover have "step b4 b5"
    unfolding b5_def by (rule step.ticked [OF k4 x])
  ultimately have "reachable b5"
    by (rule reachable.next_state)
  moreover have "step b5 b6"
    unfolding b6_def by (rule step.ticked [OF k5 unit_draw_examples(2)])
  ultimately have reach: "reachable b6"
    by (rule reachable.next_state)
  have shared: "pipe_id (pipelines s2 ! 0) = ''1700000000000''"
    "pipe_id (pipelines s2 ! 1) = ''1700000000000''"
    "pipe_environment (pipelines s2 ! 1) = Staging"
    "length (intervals s2) = 2"
    "pipe_stage (pipelines b5 ! 1) = Completed"
    "pipe_progress (pipelines b5 ! 1) = 100"
    "length (intervals b5) = 1"
    "reachable b6"
    "pipe_stage (pipelines b6 ! 1) = Build"
    "pipe_progress (pipelines b6 ! 1) = 7"
    using q2(2-4) o5(3,4) reach o6 by (simp_all add: j2 l5 del: One_nat_def)
  have largest: "unit_draw (1 - 1 / 2 ^ 53)" "fl (fl ((1 - 1 / 2 ^ 53) * 15) + 5) = 20"
    using x inc by (simp_all only: x_def)
  show ?thesis
    unfolding Let_def
    using largest
      rounded [unfolded a6_def a5_def a4_def a3_def a2_def a1_def s0_def]
      shared [unfolded b6_def b5_def b4_def b3_def b2_def b1_def s2_def s1_def x_def]
    by (intro conjI)
qed


end
